theory Spec2Isabelle
  imports Main "HOL-Library.Sublist" "HOL-Library.Multiset"
    "HOL-Library.Char_ord" "HOL-Library.List_Lexorder"
begin

section \<open>Text and characters\<close>

text \<open>
  The generator is JavaScript (\<^verbatim>\<open>.github/scripts/generate-readme-v2.js\<close>, the last of the
  Terraform generators in that file, lines 619 to 981).  The repository holds older copies of
  it; their block extractor, field parser and classification are the same, character for
  character, and only their usage synthesizer is older: it does not sort and does not show
  the trigger value.  The last copy is the one that the end-to-end test of the repository
  describes, and it is the one modelled here.

  A JavaScript string is a sequence of code units; it is modelled as a \<^typ>\<open>string\<close>,
  one \<^typ>\<open>char\<close> per code unit, which covers every text whose code units are below 256.
  All characters the code tests for are ASCII.
\<close>

definition lbrace :: char where "lbrace = CHR 0x7B"
definition rbrace :: char where "rbrace = CHR 0x7D"
definition dquote :: char where "dquote = CHR 0x22"
definition newline :: char where "newline = CHR 0x0A"
definition underscore :: char where "underscore = CHR 0x5F"
definition hyphen :: char where "hyphen = CHR 0x2D"
definition blank :: char where "blank = CHR 0x20"

section \<open>Block extractor: \<^verbatim>\<open>parseVariableBlock\<close>\<close>

text \<open>
  \<^verbatim>\<open>
  function parseVariableBlock(content, startIndex) {
    let braceCount = 0; let inBlock = false; let blockContent = '';
    for (let i = startIndex; i < content.length; i++) {
      const char = content[i];
      if (char === '{') { braceCount++; inBlock = true; }
      if (char === '}') { braceCount--; }
      if (inBlock) { blockContent += char; }
      if (inBlock && braceCount === 0) { break; }
    }
    return blockContent;
  }
  \<close>
  The loop is a recursion over the text that is still to be read; the three mutable
  variables are its arguments.  \<open>braceCount\<close> can become negative (a closing brace read
  before any opening one), so it is an \<^typ>\<open>int\<close>.
\<close>

fun scan :: "string \<Rightarrow> int \<Rightarrow> bool \<Rightarrow> string \<Rightarrow> string" where
  "scan [] braceCount inBlock blockContent = blockContent"
| "scan (char # rest) braceCount inBlock blockContent =
     (let braceCount1 = (if char = lbrace then braceCount + 1 else braceCount);
          inBlock1 = (if char = lbrace then True else inBlock);
          braceCount2 = (if char = rbrace then braceCount1 - 1 else braceCount1);
          blockContent1 = (if inBlock1 then blockContent @ [char] else blockContent)
      in if inBlock1 \<and> braceCount2 = 0 then blockContent1
         else scan rest braceCount2 inBlock1 blockContent1)"

text \<open>
  The loop starts at \<open>startIndex\<close>.  For a negative index \<open>content[i]\<close> is
  \<open>undefined\<close> until \<open>i\<close> reaches 0, and nothing happens in those rounds; for an
  index beyond the end the loop body never runs.  \<^term>\<open>drop (nat startIndex)\<close> is both.
\<close>

definition parseVariableBlock :: "string \<Rightarrow> int \<Rightarrow> string" where
  "parseVariableBlock content startIndex = scan (drop (nat startIndex) content) 0 False []"

text \<open>The brace depth of a text: opening braces minus closing braces.\<close>

definition depth :: "string \<Rightarrow> int" where
  "depth s = int (count_list s lbrace) - int (count_list s rbrace)"

text \<open>
  Texts whose braces are properly nested, as a grammar: empty, a character that is not a
  brace followed by a nested text, or a nested text in braces followed by a nested text.
\<close>

inductive balanced :: "string \<Rightarrow> bool" where
  bal_empty: "balanced []"
| bal_char: "c \<noteq> lbrace \<Longrightarrow> c \<noteq> rbrace \<Longrightarrow> balanced s \<Longrightarrow> balanced (c # s)"
| bal_nest: "balanced s \<Longrightarrow> balanced t \<Longrightarrow> balanced (lbrace # s @ rbrace # t)"

text \<open>
  The same texts by a check that can be run: \<open>nested s d\<close> holds when \<open>s\<close> closes
  \<open>d\<close> braces that are open before it and leaves nothing else open.
\<close>

fun nested :: "string \<Rightarrow> nat \<Rightarrow> bool" where
  "nested [] d = (d = 0)"
| "nested (c # s) d =
     (if c = lbrace then nested s (Suc d)
      else if c = rbrace then 0 < d \<and> nested s (d - 1)
      else nested s d)"

section \<open>Declarations and their classification: \<^verbatim>\<open>prepareContext\<close>\<close>

record validation_info =
  condition :: string
  fullBlock :: string

record variable =
  name :: string
  hasDefault :: bool
  validation :: "validation_info option"
  description :: string

text \<open>
  \<^verbatim>\<open>
  const requiredVars    = variables.filter(v => !v.hasDefault && !v.validation);
  const triggerVars     = variables.filter(v => !v.hasDefault && v.validation);
  const conditionalVars = variables.filter(v => v.hasDefault && v.validation);
  const optionalVars    = variables.filter(v => v.hasDefault && !v.validation);
  \<close>
  \<open>v.validation\<close> is an object or \<open>null\<close>; an object is truthy.
\<close>

definition truthy :: "'a option \<Rightarrow> bool" where
  "truthy v = (v \<noteq> None)"

record module_context =
  variables :: "variable list"
  requiredVars :: "variable list"
  triggerVars :: "variable list"
  conditionalVars :: "variable list"
  optionalVars :: "variable list"

definition classify :: "variable list \<Rightarrow> module_context" where
  "classify vs =
     \<lparr> variables = vs,
       requiredVars = filter (\<lambda>v. \<not> hasDefault v \<and> \<not> truthy (validation v)) vs,
       triggerVars = filter (\<lambda>v. \<not> hasDefault v \<and> truthy (validation v)) vs,
       conditionalVars = filter (\<lambda>v. hasDefault v \<and> truthy (validation v)) vs,
       optionalVars = filter (\<lambda>v. hasDefault v \<and> \<not> truthy (validation v)) vs \<rparr>"

text \<open>The four categories of the decision table.\<close>

datatype category = Required | Trigger | Conditional | Optional

definition category_of :: "variable \<Rightarrow> category" where
  "category_of v =
     (if hasDefault v then (if validation v = None then Optional else Conditional)
      else (if validation v = None then Required else Trigger))"

section \<open>Usage synthesizer: \<^verbatim>\<open>generateReadme\<close>\<close>

text \<open>
  \<^verbatim>\<open>
  const basicUsageVars = [...requiredVars, ...triggerVars]
    .sort((a, b) => a.name.localeCompare(b.name));
  let basicUsageBlock = '';
  if (basicUsageVars.length > 0) {
    const maxVarLength = Math.max(...basicUsageVars.map(v => v.name.length));
    basicUsageBlock = '\n' + basicUsageVars.map(v =>
      `  ${v.name.padEnd(maxVarLength)} = "your-${v.name.replace(/_/g, '-')}"`
    ).join('\n') + '\n';
  }
  \<close>
  \<open>String.prototype.localeCompare\<close> belongs to the JavaScript runtime, not to this
  repository, and its order depends on the runtime's locale data.  It is a parameter
  \<open>localeCompare\<close> of every function that sorts; a negative result means "before", zero
  "equal", a positive one "after".

  \<open>Array.prototype.sort\<close> is stable.  With a consistent comparator its result is
  determined; it is modelled by a stable insertion sort.
\<close>

fun insert_sorted :: "('a \<Rightarrow> 'a \<Rightarrow> int) \<Rightarrow> 'a \<Rightarrow> 'a list \<Rightarrow> 'a list" where
  "insert_sorted cmp x [] = [x]"
| "insert_sorted cmp x (y # ys) =
     (if cmp x y \<le> 0 then x # y # ys else y # insert_sorted cmp x ys)"

fun array_sort :: "('a \<Rightarrow> 'a \<Rightarrow> int) \<Rightarrow> 'a list \<Rightarrow> 'a list" where
  "array_sort cmp [] = []"
| "array_sort cmp (x # xs) = insert_sorted cmp x (array_sort cmp xs)"

text \<open>The lexicographic order of the code units, as a comparator.\<close>

definition lexCompare :: "string \<Rightarrow> string \<Rightarrow> int" where
  "lexCompare a b = (if a = b then 0 else if a < b then - 1 else 1)"

text \<open>
  The order of the runtime's comparator is a collation order.  Two of its properties in
  JavaScript runtimes with the usual collation data matter below: punctuation sorts before
  digits and digits before letters, so that an underscore comes before a digit; and control
  characters are ignored, so that two names that differ in a control character compare as
  equal.  \<open>collationCompare\<close> is a comparator with these two properties.  It stands for
  the runtime's comparator only where a concrete comparator is needed to evaluate the
  model, on names for which these two properties settle the result.
\<close>

definition is_control :: "char \<Rightarrow> bool" where
  "is_control c =
     (of_char c < (9::nat) \<or> (14 \<le> (of_char c :: nat) \<and> of_char c < (32::nat))
      \<or> (127 \<le> (of_char c :: nat) \<and> of_char c < (160::nat)))"

definition collation_weight :: "char \<Rightarrow> nat" where
  "collation_weight c =
     (if CHR ''0'' \<le> c \<and> c \<le> CHR ''9'' then 256 + of_char c
      else if (CHR ''a'' \<le> c \<and> c \<le> CHR ''z'') \<or> (CHR ''A'' \<le> c \<and> c \<le> CHR ''Z'')
      then 512 + of_char c
      else of_char c)"

definition collation_key :: "string \<Rightarrow> nat list" where
  "collation_key s = map collation_weight (filter (\<lambda>c. \<not> is_control c) s)"

definition collationCompare :: "string \<Rightarrow> string \<Rightarrow> int" where
  "collationCompare a b =
     (if collation_key a = collation_key b then 0
      else if collation_key a < collation_key b then - 1 else 1)"

text \<open>\<open>s.padEnd(n)\<close>: blanks are appended until the length is \<open>n\<close>.\<close>

definition padEnd :: "string \<Rightarrow> nat \<Rightarrow> string" where
  "padEnd s n = s @ replicate (n - length s) blank"

text \<open>\<open>s.replace(/_/g, '-')\<close>\<close>

definition replace_underscores :: "string \<Rightarrow> string" where
  "replace_underscores s = map (\<lambda>c. if c = underscore then hyphen else c) s"

text \<open>
  \<open>Math.max(...ns)\<close> of lengths.  Of no number at all it is \<open>-Infinity\<close>; the code
  then renders no line, so the value is never used and is 0 here.
\<close>

definition math_max :: "nat list \<Rightarrow> nat" where
  "math_max ns = foldr max ns 0"

text \<open>\<open>lines.join(sep)\<close>\<close>

fun join :: "string \<Rightarrow> string list \<Rightarrow> string" where
  "join sep [] = []"
| "join sep [l] = l"
| "join sep (l # m # ls) = l @ sep @ join sep (m # ls)"

definition basicUsageVars :: "(string \<Rightarrow> string \<Rightarrow> int) \<Rightarrow> module_context \<Rightarrow> variable list" where
  "basicUsageVars localeCompare ctx =
     array_sort (\<lambda>a b. localeCompare (name a) (name b)) (requiredVars ctx @ triggerVars ctx)"

definition basicUsageLine :: "nat \<Rightarrow> variable \<Rightarrow> string" where
  "basicUsageLine maxVarLength v =
     ''  '' @ padEnd (name v) maxVarLength @ '' = '' @ [dquote] @ ''your-''
       @ replace_underscores (name v) @ [dquote]"

definition basicUsageBlock :: "(string \<Rightarrow> string \<Rightarrow> int) \<Rightarrow> module_context \<Rightarrow> string" where
  "basicUsageBlock localeCompare ctx =
     (let vars = basicUsageVars localeCompare ctx in
      if length vars > 0 then
        (let maxVarLength = math_max (map (\<lambda>v. length (name v)) vars)
         in [newline] @ join [newline] (map (basicUsageLine maxVarLength) vars) @ [newline])
      else [])"

text \<open>
  One entry of \<open>parsed.conditionalUsage\<close>, the reply of the text-generation service:
  \<^verbatim>\<open>{ name, triggerVar, triggerValue, variables }\<close>.
  \<^verbatim>\<open>
  const allVars = [
    ...requiredVars.map(v => v.name),
    ...triggerVars.map(v => v.name),
    ...usage.variables
  ].sort((a, b) => a.localeCompare(b));
  const maxVarLength = Math.max(...allVars.map(v => v.length));
  const varsBlock = allVars.map(varName => {
    const isTrigger = varName === usage.triggerVar;
    const isConditional = usage.variables.includes(varName);
    let value;
    if (isTrigger) { value = `"${usage.triggerValue}"`; }
    else { value = `"your-${varName.replace(/_/g, '-')}"`; }
    const comment = isConditional
      ? `  # Required when ${usage.triggerVar} = "${usage.triggerValue}"` : '';
    return `  ${varName.padEnd(maxVarLength)} = ${value}${comment}`;
  }).join('\n');
  \<close>
\<close>

record usage_group =
  usageName :: string
  triggerVar :: string
  triggerValue :: string
  usageVariables :: "string list"

definition allVars :: "(string \<Rightarrow> string \<Rightarrow> int) \<Rightarrow> module_context \<Rightarrow> usage_group \<Rightarrow> string list" where
  "allVars localeCompare ctx usage =
     array_sort localeCompare
       (map name (requiredVars ctx) @ map name (triggerVars ctx) @ usageVariables usage)"

definition usageLine :: "usage_group \<Rightarrow> nat \<Rightarrow> string \<Rightarrow> string" where
  "usageLine usage maxVarLength varName =
     (let isTrigger = (varName = triggerVar usage);
          isConditional = List.member (usageVariables usage) varName;
          val = (if isTrigger then [dquote] @ triggerValue usage @ [dquote]
                 else [dquote] @ ''your-'' @ replace_underscores varName @ [dquote]);
          comment = (if isConditional
                     then ''  # Required when '' @ triggerVar usage @ '' = '' @ [dquote]
                            @ triggerValue usage @ [dquote]
                     else [])
      in ''  '' @ padEnd varName maxVarLength @ '' = '' @ val @ comment)"

definition varsLines :: "(string \<Rightarrow> string \<Rightarrow> int) \<Rightarrow> module_context \<Rightarrow> usage_group \<Rightarrow> string list" where
  "varsLines localeCompare ctx usage =
     (let all = allVars localeCompare ctx usage;
          maxVarLength = math_max (map length all)
      in map (usageLine usage maxVarLength) all)"

definition varsBlock :: "(string \<Rightarrow> string \<Rightarrow> int) \<Rightarrow> module_context \<Rightarrow> usage_group \<Rightarrow> string" where
  "varsBlock localeCompare ctx usage = join [newline] (varsLines localeCompare ctx usage)"

section \<open>The module of the end-to-end test\<close>

text \<open>
  \<^verbatim>\<open>test-e2e.js\<close> runs the generator on an S3 module and expects \<open>bucket_name\<close> and
  \<open>environment\<close> to be required, \<open>test_storage_class\<close> a trigger,
  \<open>test_glacier_days\<close> conditional and \<open>force_destroy\<close> optional; its mock reply of the
  text-generation service has a usage group "Glacier Storage".  The declarations are listed
  here in an order that is not the alphabetical one.
\<close>

definition s3_variables :: "variable list" where
  "s3_variables =
     [\<lparr>name = ''test_storage_class'', hasDefault = False,
        validation = Some \<lparr>condition = ''contains(x, var.test_storage_class)'', fullBlock = []\<rparr>,
        description = ''Storage class''\<rparr>,
      \<lparr>name = ''environment'', hasDefault = False, validation = None, description = []\<rparr>,
      \<lparr>name = ''force_destroy'', hasDefault = True, validation = None, description = []\<rparr>,
      \<lparr>name = ''test_glacier_days'', hasDefault = True,
        validation = Some \<lparr>condition = ''var.test_glacier_days != null'', fullBlock = []\<rparr>,
        description = []\<rparr>,
      \<lparr>name = ''bucket_name'', hasDefault = False, validation = None, description = []\<rparr>]"

text \<open>
  Two required declarations whose names differ where one has an underscore and the other
  a digit, and two whose names differ in a control character only.
\<close>

definition bucket_declarations :: "variable list" where
  "bucket_declarations =
     [\<lparr>name = ''bucket2'', hasDefault = False, validation = None, description = []\<rparr>,
      \<lparr>name = ''bucket_name'', hasDefault = False, validation = None, description = []\<rparr>]"

definition control_declarations :: "variable list" where
  "control_declarations =
     [\<lparr>name = ''a'' @ [CHR 0x01], hasDefault = False, validation = None, description = []\<rparr>,
      \<lparr>name = ''a'', hasDefault = False, validation = None, description = []\<rparr>]"

definition glacier_usage :: usage_group where
  "glacier_usage =
     \<lparr>usageName = ''Glacier Storage'', triggerVar = ''test_storage_class'',
      triggerValue = ''glacier'', usageVariables = [''test_glacier_days'']\<rparr>"

section \<open>Regular expressions\<close>

text \<open>
  The field parser works with JavaScript regular expressions.  Each of them is a sequence
  of single characters, character classes, greedy and lazy repetitions of a character class,
  at most one capture group and at most one word boundary; there is no alternative.  Such a
  pattern is a list of atoms, and the matcher below is the backtracking search of the
  language: a greedy repetition tries the longest run first and gives characters back, a
  lazy one tries the shortest run first and takes characters on, and the first way that
  lets the rest of the pattern match is the result.
\<close>

text \<open>
  The class \<open>\s\<close> (white space and line terminators) among the code units below 256, and
  the class \<open>\w\<close>.
\<close>

definition is_space :: "char \<Rightarrow> bool" where
  "is_space c =
     (c \<in> set [CHR 0x09, CHR 0x0A, CHR 0x0B, CHR 0x0C, CHR 0x0D, CHR 0x20, CHR 0xA0])"

definition is_word :: "char \<Rightarrow> bool" where
  "is_word c =
     (c = underscore \<or> (CHR ''a'' \<le> c \<and> c \<le> CHR ''z'') \<or> (CHR ''A'' \<le> c \<and> c \<le> CHR ''Z'')
      \<or> (CHR ''0'' \<le> c \<and> c \<le> CHR ''9''))"

definition any_char :: "char \<Rightarrow> bool" where
  "any_char c = True"

definition not_dquote :: "char \<Rightarrow> bool" where
  "not_dquote c = (c \<noteq> dquote)"

datatype atom =
    One "char \<Rightarrow> bool"
  | Star "char \<Rightarrow> bool"
  | LazyStar "char \<Rightarrow> bool"
  | WordB
  | GOpen
  | GClose

definition Chr :: "char \<Rightarrow> atom" where
  "Chr c = One (\<lambda>x. x = c)"

definition lit :: "string \<Rightarrow> atom list" where
  "lit s = map Chr s"

text \<open>
  \<open>\b\<close> holds between two positions when exactly one of the characters before and after
  is a word character; beyond either end of the text there is no word character.
\<close>

fun word_before :: "char option \<Rightarrow> bool" where
  "word_before None = False"
| "word_before (Some c) = is_word c"

fun word_after :: "string \<Rightarrow> bool" where
  "word_after [] = False"
| "word_after (c # s) = is_word c"

text \<open>
  \<open>rmatch r p s (go, gc)\<close> matches the pattern \<open>r\<close> at the beginning of \<open>s\<close>, where
  \<open>p\<close> is the character before \<open>s\<close> in the whole text.  The result is the text that
  follows the match, with the texts that followed the opening and the closing of the capture
  group.
\<close>

fun rmatch :: "atom list \<Rightarrow> char option \<Rightarrow> string \<Rightarrow> string \<times> string
    \<Rightarrow> (string \<times> string \<times> string) option" where
  "rmatch [] p s (go, gc) = Some (s, go, gc)"
| "rmatch (One c # r) p [] g = None"
| "rmatch (One c # r) p (x # xs) g = (if c x then rmatch r (Some x) xs g else None)"
| "rmatch (Star c # r) p [] g = rmatch r p [] g"
| "rmatch (Star c # r) p (x # xs) g =
     (if c x then
        (case rmatch (Star c # r) (Some x) xs g of
           Some m \<Rightarrow> Some m
         | None \<Rightarrow> rmatch r p (x # xs) g)
      else rmatch r p (x # xs) g)"
| "rmatch (LazyStar c # r) p [] g = rmatch r p [] g"
| "rmatch (LazyStar c # r) p (x # xs) g =
     (case rmatch r p (x # xs) g of
        Some m \<Rightarrow> Some m
      | None \<Rightarrow> (if c x then rmatch (LazyStar c # r) (Some x) xs g else None))"
| "rmatch (WordB # r) p s g =
     (if word_before p \<noteq> word_after s then rmatch r p s g else None)"
| "rmatch (GOpen # r) p s (go, gc) = rmatch r p s (s, gc)"
| "rmatch (GClose # r) p s (go, gc) = rmatch r p s (go, s)"

text \<open>
  A match object: the text from the start of the match, the text after the match, and the
  texts from the opening and from the closing of the capture group.  \<open>match[0]\<close>,
  \<open>match[1]\<close> and \<open>match.index\<close> are read off these.
\<close>

record rx_match =
  mstart :: string
  mend :: string
  gopen :: string
  gclose :: string

definition match_text :: "rx_match \<Rightarrow> string" where
  "match_text m = take (length (mstart m) - length (mend m)) (mstart m)"

definition group1 :: "rx_match \<Rightarrow> string" where
  "group1 m = take (length (gopen m) - length (gclose m)) (gopen m)"

definition match_index :: "string \<Rightarrow> rx_match \<Rightarrow> nat" where
  "match_index content m = length content - length (mstart m)"

text \<open>The leftmost match: the pattern is tried at every position from left to right.\<close>

fun rsearch :: "atom list \<Rightarrow> char option \<Rightarrow> string \<Rightarrow> rx_match option" where
  "rsearch r p [] =
     (case rmatch r p [] ([], []) of
        None \<Rightarrow> None
      | Some (e, go, gc) \<Rightarrow> Some \<lparr>mstart = [], mend = e, gopen = go, gclose = gc\<rparr>)"
| "rsearch r p (x # xs) =
     (case rmatch r p (x # xs) ([], []) of
        Some (e, go, gc) \<Rightarrow> Some \<lparr>mstart = x # xs, mend = e, gopen = go, gclose = gc\<rparr>
      | None \<Rightarrow> rsearch r (Some x) xs)"

text \<open>
  \<open>s.match(r)\<close> and \<open>r.test(s)\<close> of a pattern without the flag \<open>g\<close> search from the
  beginning; \<open>r.exec(s)\<close> of a pattern with the flag \<open>g\<close> searches from \<open>lastIndex\<close>.
\<close>

definition rx_first :: "atom list \<Rightarrow> string \<Rightarrow> rx_match option" where
  "rx_first r s = rsearch r None s"

definition rx_test :: "atom list \<Rightarrow> string \<Rightarrow> bool" where
  "rx_test r s = (rsearch r None s \<noteq> None)"

definition rx_exec :: "atom list \<Rightarrow> string \<Rightarrow> nat \<Rightarrow> rx_match option" where
  "rx_exec r content lastIndex =
     (if lastIndex > length content then None
      else rsearch r (if lastIndex = 0 then None else Some (content ! (lastIndex - 1)))
             (drop lastIndex content))"

section \<open>Field parser: \<^verbatim>\<open>extractVariables\<close>\<close>

text \<open>
  \<^verbatim>\<open>
  const variableRegex = /variable\s+"([^"]+)"\s*\{/g;
  const hasDefault = /\bdefault\s*=/.test(blockContent);
  const validationMatch = blockContent.match(
    /validation\s*\{[\s\S]*?condition\s*=\s*([\s\S]*?)(?:\n\s*error_message)/);
  fullBlock: blockContent.match(/validation\s*\{[\s\S]*?\n\s*\}/)?.[0] || ''
  const descMatch = blockContent.match(/description\s*=\s*"([^"]+)"/);
  \<close>
\<close>

definition variableRegex :: "atom list" where
  "variableRegex =
     lit ''variable'' @ [One is_space, Star is_space, Chr dquote, GOpen, One not_dquote,
       Star not_dquote, GClose, Chr dquote, Star is_space, Chr lbrace]"

definition defaultRegex :: "atom list" where
  "defaultRegex = [WordB] @ lit ''default'' @ [Star is_space, Chr CHR ''='']"

definition validationRegex :: "atom list" where
  "validationRegex =
     lit ''validation'' @ [Star is_space, Chr lbrace, LazyStar any_char] @ lit ''condition''
       @ [Star is_space, Chr CHR ''='', Star is_space, GOpen, LazyStar any_char, GClose,
          Chr newline, Star is_space] @ lit ''error_message''"

definition fullBlockRegex :: "atom list" where
  "fullBlockRegex =
     lit ''validation'' @ [Star is_space, Chr lbrace, LazyStar any_char, Chr newline,
       Star is_space, Chr rbrace]"

definition descriptionRegex :: "atom list" where
  "descriptionRegex =
     lit ''description'' @ [Star is_space, Chr CHR ''='', Star is_space, Chr dquote, GOpen,
       One not_dquote, Star not_dquote, GClose, Chr dquote]"

text \<open>\<open>s.trim()\<close> removes white space and line terminators at both ends.\<close>

definition trim :: "string \<Rightarrow> string" where
  "trim s = rev (dropWhile is_space (rev (dropWhile is_space s)))"

text \<open>
  The body of the loop of \<^verbatim>\<open>extractVariables\<close> after the block has been cut out:
  \<^verbatim>\<open>
  const validation = validationMatch ? {
    condition: validationMatch[1].trim(),
    fullBlock: blockContent.match(...)?.[0] || ''
  } : null;
  const description = descMatch ? descMatch[1] : '';
  variables.push({ name, hasDefault, validation, description });
  \<close>
  In each pattern the capture group is on the only path through the pattern, so a match
  always has its \<open>[1]\<close>; no statement of the body can throw.
\<close>

definition parseFields :: "string \<Rightarrow> string \<Rightarrow> variable" where
  "parseFields varName blockContent =
     (let hasDefault = rx_test defaultRegex blockContent;
          validationMatch = rx_first validationRegex blockContent;
          validation =
            (case validationMatch of
               Some m \<Rightarrow>
                 Some \<lparr>condition = trim (group1 m),
                       fullBlock = (case rx_first fullBlockRegex blockContent of
                                      Some f \<Rightarrow> match_text f
                                    | None \<Rightarrow> [])\<rparr>
             | None \<Rightarrow> None);
          descMatch = rx_first descriptionRegex blockContent;
          description = (case descMatch of Some d \<Rightarrow> group1 d | None \<Rightarrow> [])
      in \<lparr>name = varName, hasDefault = hasDefault, validation = validation,
          description = description\<rparr>)"

text \<open>
  \<^verbatim>\<open>
  while ((match = variableRegex.exec(content)) !== null) { ... }
  \<close>
  The loop condition alone moves \<open>lastIndex\<close>, to the end of each match; the body does
  not touch it.  So the loop runs its body once for each of the successive matches, which
  are collected here.
\<close>

function variableMatches :: "string \<Rightarrow> nat \<Rightarrow> rx_match list" where
  "variableMatches content lastIndex =
     (case rx_exec variableRegex content lastIndex of
        None \<Rightarrow> []
      | Some m \<Rightarrow>
          m # variableMatches content (match_index content m + length (match_text m)))"
  by pat_completeness auto
termination
proof (relation "measure (\<lambda>(content, lastIndex). length content - lastIndex)")
  show "wf (measure (\<lambda>(content, lastIndex). length content - lastIndex))"
    by simp
next
  fix content :: string and lastIndex :: nat and m :: rx_match
  assume ex: "rx_exec variableRegex content lastIndex = Some m"
  have shorter: "rmatch r p s g = Some (e, go, gc) \<Longrightarrow> length e \<le> length s"
    for r p s g e go gc
    by (induction r p s g arbitrary: e go gc rule: rmatch.induct)
      (fastforce split: if_splits option.splits)+
  have found: "rsearch r p s = Some m \<Longrightarrow>
      length (mstart m) \<le> length s
      \<and> (\<exists>q. rmatch r q (mstart m) ([], []) = Some (mend m, gopen m, gclose m))"
    for r p s
    by (induction r p s rule: rsearch.induct)
      (fastforce split: option.splits prod.splits)+
  from ex have li: "lastIndex \<le> length content"
    and se: "rsearch variableRegex
        (if lastIndex = 0 then None else Some (content ! (lastIndex - 1)))
        (drop lastIndex content) = Some m"
    by (auto simp: rx_exec_def split: if_splits)
  from found [OF se] obtain q where
    st: "length (mstart m) \<le> length content - lastIndex"
    and ma: "rmatch variableRegex q (mstart m) ([], []) = Some (mend m, gopen m, gclose m)"
    by auto
  have "length (mend m) < length (mstart m)"
  proof (cases "mstart m")
    case Nil
    with ma show ?thesis by (simp add: variableRegex_def lit_def Chr_def)
  next
    case (Cons x xs)
    with ma have "rmatch (tl variableRegex) (Some x) xs ([], []) = Some (mend m, gopen m, gclose m)"
      by (simp add: variableRegex_def lit_def Chr_def split: if_splits)
    from shorter [OF this] Cons show ?thesis by simp
  qed
  with st li show "((content, match_index content m + length (match_text m)), content, lastIndex)
      \<in> measure (\<lambda>(content, lastIndex). length content - lastIndex)"
    by (simp add: match_index_def match_text_def)
qed

declare variableMatches.simps [simp del]

text \<open>
  \<^verbatim>\<open>
  const name = match[1];
  const blockContent = parseVariableBlock(content, match.index + match[0].length - 1);
  \<close>
\<close>

definition blockStart :: "string \<Rightarrow> rx_match \<Rightarrow> int" where
  "blockStart content m = int (match_index content m) + int (length (match_text m)) - 1"

definition extractVariables :: "string \<Rightarrow> variable list" where
  "extractVariables content =
     map (\<lambda>m. parseFields (group1 m) (parseVariableBlock content (blockStart content m)))
       (variableMatches content 0)"

section \<open>What a pattern matches\<close>

text \<open>
  The words of a pattern, as a specification of the matcher: every atom takes its share of
  the word, in order.  The capture group and the word boundary take nothing.
\<close>

fun accepts :: "atom list \<Rightarrow> string \<Rightarrow> bool" where
  "accepts [] w = (w = [])"
| "accepts (One c # r) w = (\<exists>x v. w = x # v \<and> c x \<and> accepts r v)"
| "accepts (Star c # r) w = (\<exists>u v. w = u @ v \<and> list_all c u \<and> accepts r v)"
| "accepts (LazyStar c # r) w = (\<exists>u v. w = u @ v \<and> list_all c u \<and> accepts r v)"
| "accepts (WordB # r) w = accepts r w"
| "accepts (GOpen # r) w = accepts r w"
| "accepts (GClose # r) w = accepts r w"

text \<open>The character before the position reached after reading \<open>w\<close>.\<close>

definition lastp :: "char option \<Rightarrow> string \<Rightarrow> char option" where
  "lastp p w = (if w = [] then p else Some (last w))"

section \<open>The validation patterns in words\<close>

text \<open>
  What the two patterns of the validation attribute match, written without the matcher.
  A text begins with an error-message line when it is a line break, optional white space
  and the keyword \<open>error_message\<close>, and with a closing line when it is a line break,
  optional white space and a closing brace.  A text begins with a condition when it is the
  word \<open>condition\<close>, optional white space, \<open>=\<close>, and somewhere later an
  error-message line.  It begins with a validation when it is the keyword
  \<open>validation\<close>, optional white space, an opening brace, and somewhere later a
  condition; and with a validation block when it is the keyword, optional white space, an
  opening brace, and somewhere later a closing line.
\<close>

definition em_line :: "string \<Rightarrow> bool" where
  "em_line s = (\<exists>ws rest. s = newline # ws @ ''error_message'' @ rest \<and> list_all is_space ws)"

definition condition_at :: "string \<Rightarrow> bool" where
  "condition_at s =
     (\<exists>ws x t. s = ''condition'' @ ws @ CHR ''='' # x @ t \<and> list_all is_space ws \<and> em_line t)"

definition validation_at :: "string \<Rightarrow> bool" where
  "validation_at s =
     (\<exists>ws mid c. s = ''validation'' @ ws @ lbrace # mid @ c \<and> list_all is_space ws
        \<and> condition_at c)"

definition brace_line :: "string \<Rightarrow> bool" where
  "brace_line s = (\<exists>ws rest. s = newline # ws @ rbrace # rest \<and> list_all is_space ws)"

definition block_at :: "string \<Rightarrow> bool" where
  "block_at s =
     (\<exists>ws mid t. s = ''validation'' @ ws @ lbrace # mid @ t \<and> list_all is_space ws
        \<and> brace_line t)"

text \<open>
  The tails of \<^const>\<open>validationRegex\<close> and \<^const>\<open>fullBlockRegex\<close>: the
  error-message line, the capture group with it, the condition, and the closing line.
\<close>

abbreviation rx_error_line :: "atom list" where
  "rx_error_line \<equiv> Chr newline # Star is_space # lit ''error_message''"

abbreviation rx_capture :: "atom list" where
  "rx_capture \<equiv> GOpen # LazyStar any_char # GClose # rx_error_line"

abbreviation rx_condition :: "atom list" where
  "rx_condition \<equiv>
     lit ''condition'' @ Star is_space # Chr CHR ''='' # Star is_space # rx_capture"

abbreviation rx_brace_line :: "atom list" where
  "rx_brace_line \<equiv> [Chr newline, Star is_space, Chr rbrace]"

section \<open>The validation sub-block by brace counting\<close>

text \<open>
  The specification describes another way to find the validation sub-block: run the block
  extractor from the first occurrence of the keyword \<open>validation\<close> in the outer block.
  It is written down here, from the specification's words, to be compared with what
  \<^const>\<open>parseFields\<close> does.
\<close>

fun first_index :: "string \<Rightarrow> string \<Rightarrow> nat option" where
  "first_index key [] = (if key = [] then Some 0 else None)"
| "first_index key (x # xs) =
     (if prefix key (x # xs) then Some 0 else map_option Suc (first_index key xs))"

definition braceCountedValidation :: "string \<Rightarrow> string option" where
  "braceCountedValidation blockContent =
     (case first_index ''validation'' blockContent of
        None \<Rightarrow> None
      | Some i \<Rightarrow> Some (parseVariableBlock blockContent (int i)))"

text \<open>
  A block whose validation has a nested object that closes on a line of its own:
  \<^verbatim>\<open>
  {
    validation {
      condition = length({
        a = 1
      }) > 0
      error_message = "x"
    }
  }
  \<close>
\<close>

definition nested_validation_block :: string where
  "nested_validation_block =
     ''{'' @ [newline] @ ''  validation {'' @ [newline] @ ''    condition = length({''
     @ [newline] @ ''      a = 1'' @ [newline] @ ''    }) > 0'' @ [newline]
     @ ''    error_message = '' @ [dquote] @ ''x'' @ [dquote] @ [newline] @ ''  }''
     @ [newline] @ ''}''"

text \<open>
  A block with two validations, and a block whose condition mentions the keyword
  \<open>error_message\<close> before the line of that name:
  \<^verbatim>\<open>
  {
    validation {
      condition = a
      error_message = "x"
    }
    validation {
      condition = b
      error_message = "y"
    }
  }
  \<close>
  \<^verbatim>\<open>
  {
    validation {
      condition = var.error_message != ""
      error_message = "x"
    }
  }
  \<close>
\<close>

definition two_validations_block :: string where
  "two_validations_block =
     ''{'' @ [newline] @ ''  validation {'' @ [newline] @ ''    condition = a'' @ [newline]
     @ ''    error_message = '' @ [dquote] @ ''x'' @ [dquote] @ [newline] @ ''  }'' @ [newline]
     @ ''  validation {'' @ [newline] @ ''    condition = b'' @ [newline]
     @ ''    error_message = '' @ [dquote] @ ''y'' @ [dquote] @ [newline] @ ''  }'' @ [newline]
     @ ''}''"

definition keyword_in_condition_block :: string where
  "keyword_in_condition_block =
     ''{'' @ [newline] @ ''  validation {'' @ [newline]
     @ ''    condition = var.error_message != '' @ [dquote, dquote] @ [newline]
     @ ''    error_message = '' @ [dquote] @ ''x'' @ [dquote] @ [newline] @ ''  }'' @ [newline]
     @ ''}''"

text \<open>
  The condition as the specification describes it: everything between \<open>condition =\<close>
  and the following keyword \<open>error_message\<close>, trimmed.  It is written down from the
  specification's words, to be compared with the condition of \<^const>\<open>parseFields\<close>.
\<close>

definition text_after :: "string \<Rightarrow> string \<Rightarrow> string option" where
  "text_after key s = map_option (\<lambda>i. drop (i + length key) s) (first_index key s)"

definition text_before :: "string \<Rightarrow> string \<Rightarrow> string option" where
  "text_before key s = map_option (\<lambda>i. take i s) (first_index key s)"

definition conditionUpToKeyword :: "string \<Rightarrow> string option" where
  "conditionUpToKeyword blockContent =
     (case text_after ''condition ='' blockContent of
        None \<Rightarrow> None
      | Some r \<Rightarrow> map_option trim (text_before ''error_message'' r))"

section \<open>Header discovery\<close>

text \<open>
  The pairs of a name and a block start index that the loop of \<^verbatim>\<open>extractVariables\<close>
  hands to the block extractor, one for each match of \<^const>\<open>variableRegex\<close>.
\<close>

definition discoverHeaders :: "string \<Rightarrow> (string \<times> int) list" where
  "discoverHeaders content =
     map (\<lambda>m. (group1 m, blockStart content m)) (variableMatches content 0)"

text \<open>
  A header at index \<open>k\<close>: the keyword \<open>variable\<close>, white space, the name in double
  quotes, optional white space and an opening brace, which is at index \<open>b\<close>.
\<close>

definition header_at :: "string \<Rightarrow> nat \<Rightarrow> string \<Rightarrow> int \<Rightarrow> bool" where
  "header_at content k nm b =
     (\<exists>ws ws' rest.
        k \<le> length content
        \<and> drop k content = ''variable'' @ ws @ dquote # nm @ dquote # ws' @ lbrace # rest
        \<and> ws \<noteq> [] \<and> list_all is_space ws \<and> nm \<noteq> [] \<and> dquote \<notin> set nm
        \<and> list_all is_space ws'
        \<and> b = int k + int (length (''variable'' @ ws @ dquote # nm @ dquote # ws')))"

text \<open>
  The specification speaks of a line-anchored pattern.  An index is at the start of its
  line when only white space lies between the beginning of the line and the index.
\<close>

definition at_line_start :: "string \<Rightarrow> nat \<Rightarrow> bool" where
  "at_line_start content i =
     list_all is_space (takeWhile (\<lambda>c. c \<noteq> newline) (rev (take i content)))"

text \<open>
  Two texts: a header in a comment, and the two declarations of the specification's
  round-trip scenario in one file.
\<close>

definition commented_header :: string where
  "commented_header = ''# variable '' @ [dquote] @ ''old'' @ [dquote] @ '' {}''"

definition two_declarations :: string where
  "two_declarations =
     ''variable '' @ [dquote] @ ''bucket_name'' @ [dquote] @ '' {'' @ [newline]
       @ ''  type = string'' @ [newline] @ ''}'' @ [newline] @ [newline] @ ''variable ''
       @ [dquote] @ ''storage_class'' @ [dquote] @ '' {'' @ [newline] @ ''  validation {''
       @ [newline] @ ''    condition = contains(['' @ [dquote] @ ''standard'' @ [dquote]
       @ '','' @ [dquote] @ ''glacier'' @ [dquote] @ ''], var.storage_class)'' @ [newline]
       @ ''    error_message = '' @ [dquote] @ ''bad'' @ [dquote] @ [newline] @ ''  }''
       @ [newline] @ ''}'' @ [newline]"

section \<open>Properties of the block extractor\<close>

lemma scan_in_block:
  "balanced b \<Longrightarrow> 0 < d \<Longrightarrow> scan (b @ rest) d True acc = scan rest d True (acc @ b)"
proof (induction b arbitrary: d acc rest rule: balanced.induct)
  case bal_empty
  then show ?case by simp
next
  case (bal_char c s)
  then show ?case by (simp add: Let_def)
next
  case (bal_nest s t)
  have neq: "lbrace \<noteq> rbrace" by (simp add: lbrace_def rbrace_def)
  have d1: "0 < d + 1" using bal_nest.prems by simp
  have "scan ((lbrace # s @ rbrace # t) @ rest) d True acc
      = scan (s @ (rbrace # t @ rest)) (d + 1) True (acc @ [lbrace])"
    using bal_nest.prems neq by (simp add: Let_def)
  also have "\<dots> = scan (rbrace # t @ rest) (d + 1) True ((acc @ [lbrace]) @ s)"
    by (rule bal_nest.IH(1) [OF d1])
  also have "\<dots> = scan (t @ rest) d True (((acc @ [lbrace]) @ s) @ [rbrace])"
    using bal_nest.prems neq by (simp add: Let_def)
  also have "\<dots> = scan rest d True ((((acc @ [lbrace]) @ s) @ [rbrace]) @ t)"
    by (rule bal_nest.IH(2) [OF bal_nest.prems])
  finally show ?case by simp
qed

lemma scan_acc: "scan s d b acc = acc @ scan s d b []"
proof (induction s arbitrary: d b acc)
  case Nil
  then show ?case by simp
next
  case (Cons c s)
  have A: "scan s d' b' (acc @ [x]) = acc @ x # scan s d' b' []" for d' b' x
    using Cons.IH [of d' b' "acc @ [x]"] by simp
  have B: "scan s d' b' [x] = x # scan s d' b' []" for d' b' x
    using Cons.IH [of d' b' "[x]"] by simp
  have C: "scan s d' b' acc = acc @ scan s d' b' []" for d' b'
    by (rule Cons.IH)
  show ?case
    by (simp add: Let_def A B) (use C in blast)
qed

lemma scan_prefix_in_block: "prefix (scan s d True []) s"
proof (induction s arbitrary: d)
  case Nil
  then show ?case by simp
next
  case (Cons c s)
  show ?case
    using Cons.IH scan_acc [of s _ True "[c]"] by (simp add: Let_def)
qed

lemma scan_prefix: "prefix (scan s d False []) (dropWhile (\<lambda>c. c \<noteq> lbrace) s)"
proof (induction s arbitrary: d)
  case Nil
  then show ?case by simp
next
  case (Cons c s)
  show ?case
  proof (cases "c = lbrace")
    case True
    then show ?thesis
      using scan_prefix_in_block scan_acc [of s _ True "[c]"] by (simp add: Let_def)
  next
    case False
    then show ?thesis using Cons.IH by (simp add: Let_def)
  qed
qed

lemma depth_Nil [simp]: "depth [] = 0"
  by (simp add: depth_def)

lemma depth_Cons:
  "depth (c # s) = (if c = lbrace then 1 else if c = rbrace then - 1 else 0) + depth s"
  by (simp add: depth_def lbrace_def rbrace_def)

lemma scan_unclosed:
  "(\<forall>n. 0 < n \<and> n \<le> length s \<and> (b \<or> lbrace \<in> set (take n s)) \<longrightarrow> d + depth (take n s) \<noteq> 0)
   \<Longrightarrow> scan s d b [] = (if b then s else dropWhile (\<lambda>c. c \<noteq> lbrace) s)"
proof (induction s arbitrary: d b)
  case Nil
  then show ?case by simp
next
  case (Cons c s)
  define d' where "d' = d + depth [c]"
  define b' where "b' = (b \<or> c = lbrace)"
  have neq: "lbrace \<noteq> rbrace" by (simp add: lbrace_def rbrace_def)
  have one: "b' \<longrightarrow> d' \<noteq> 0"
    using Cons.prems [rule_format, of 1] by (auto simp: d'_def b'_def)
  have later: "\<forall>n. 0 < n \<and> n \<le> length s \<and> (b' \<or> lbrace \<in> set (take n s))
      \<longrightarrow> d' + depth (take n s) \<noteq> 0"
  proof (intro allI impI)
    fix n assume n: "0 < n \<and> n \<le> length s \<and> (b' \<or> lbrace \<in> set (take n s))"
    then have "d + depth (take (Suc n) (c # s)) \<noteq> 0"
      using Cons.prems [rule_format, of "Suc n"] by (auto simp: b'_def)
    then show "d' + depth (take n s) \<noteq> 0"
      by (simp add: d'_def depth_Cons)
  qed
  have step: "scan (c # s) d b [] = scan s d' b' (if b' then [c] else [])"
    using one neq by (auto simp: Let_def d'_def b'_def depth_Cons)
  have "scan s d' b' [] = (if b' then s else dropWhile (\<lambda>c. c \<noteq> lbrace) s)"
    by (rule Cons.IH [OF later])
  then show ?case
    using step scan_acc [of s d' b' "[c]"] by (auto simp: b'_def)
qed

lemma balanced_depth: "balanced b \<Longrightarrow> depth b = 0"
  by (induction b rule: balanced.induct) (auto simp: depth_Cons depth_def)

lemma nested_balanced_append: "balanced b \<Longrightarrow> nested (b @ s) d = nested s d"
proof (induction b arbitrary: s d rule: balanced.induct)
  case bal_empty
  then show ?case by simp
next
  case (bal_char c b)
  then show ?case by simp
next
  case (bal_nest b t)
  have neq: "rbrace \<noteq> lbrace" by (simp add: lbrace_def rbrace_def)
  have "nested ((lbrace # b @ rbrace # t) @ s) d = nested (b @ (rbrace # t @ s)) (Suc d)"
    by simp
  also have "\<dots> = nested (rbrace # t @ s) (Suc d)" by (rule bal_nest.IH(1))
  also have "\<dots> = nested (t @ s) d" using neq by simp
  also have "\<dots> = nested s d" by (rule bal_nest.IH(2))
  finally show ?case .
qed

lemma nested_split:
  "nested s d \<Longrightarrow>
     (d = 0 \<and> balanced s) \<or> (0 < d \<and> (\<exists>b t. s = b @ rbrace # t \<and> balanced b \<and> nested t (d - 1)))"
proof (induction "length s" arbitrary: s d rule: less_induct)
  case less
  show ?case
  proof (cases s)
    case Nil
    with less.prems show ?thesis by (simp add: bal_empty)
  next
    case (Cons c s')
    have neq: "rbrace \<noteq> lbrace" by (simp add: lbrace_def rbrace_def)
    consider (lb) "c = lbrace" | (rb) "c = rbrace" | (other) "c \<noteq> lbrace" "c \<noteq> rbrace"
      by blast
    then show ?thesis
    proof cases
      case lb
      with less.prems Cons have n: "nested s' (Suc d)" by simp
      from less.hyps [of s' "Suc d"] n Cons obtain b t where
        1: "s' = b @ rbrace # t" "balanced b" "nested t d"
        by auto
      have "length t < length s" using Cons 1(1) by simp
      from less.hyps [OF this 1(3)] show ?thesis
      proof (elim disjE conjE exE)
        assume "d = 0" "balanced t"
        then show ?thesis
          using bal_nest [OF 1(2), of t] Cons lb 1(1) by simp
      next
        fix b' t'
        assume d: "0 < d" and t: "t = b' @ rbrace # t'" "balanced b'" "nested t' (d - 1)"
        have "s = (lbrace # b @ rbrace # b') @ rbrace # t'"
          using Cons lb 1(1) t(1) by simp
        moreover have "balanced (lbrace # b @ rbrace # b')"
          by (rule bal_nest [OF 1(2) t(2)])
        ultimately show ?thesis using d t(3) by blast
      qed
    next
      case rb
      with less.prems Cons neq have "0 < d" "nested s' (d - 1)" by simp_all
      moreover have "s = [] @ rbrace # s'" using Cons rb by simp
      ultimately show ?thesis using bal_empty by blast
    next
      case other
      with less.prems Cons have n: "nested s' d" by simp
      from less.hyps [of s' d] n Cons
      have "(d = 0 \<and> balanced s')
          \<or> (0 < d \<and> (\<exists>b t. s' = b @ rbrace # t \<and> balanced b \<and> nested t (d - 1)))"
        by simp
      then show ?thesis
      proof (elim disjE conjE exE)
        assume "d = 0" "balanced s'"
        then show ?thesis using bal_char [OF other] Cons by simp
      next
        fix b t
        assume d: "0 < d" and t: "s' = b @ rbrace # t" "balanced b" "nested t (d - 1)"
        have "s = (c # b) @ rbrace # t" using Cons t(1) by simp
        moreover have "balanced (c # b)" by (rule bal_char [OF other t(2)])
        ultimately show ?thesis using d t(3) by blast
      qed
    qed
  qed
qed

lemma balanced_iff_nested: "balanced b \<longleftrightarrow> nested b 0"
proof
  assume "balanced b"
  from nested_balanced_append [OF this, of "[]" 0] show "nested b 0" by simp
next
  assume "nested b 0"
  from nested_split [OF this] show "balanced b" by simp
qed

section \<open>Properties of the classification\<close>

lemma category_filters:
  "(\<not> hasDefault v \<and> \<not> truthy (validation v)) = (category_of v = Required)"
  "(\<not> hasDefault v \<and> truthy (validation v)) = (category_of v = Trigger)"
  "(hasDefault v \<and> truthy (validation v)) = (category_of v = Conditional)"
  "(hasDefault v \<and> \<not> truthy (validation v)) = (category_of v = Optional)"
  by (auto simp: category_of_def truthy_def)

lemma mset_by_category:
  "mset (filter (\<lambda>v. category_of v = Required) vs)
   + mset (filter (\<lambda>v. category_of v = Trigger) vs)
   + mset (filter (\<lambda>v. category_of v = Conditional) vs)
   + mset (filter (\<lambda>v. category_of v = Optional) vs) = mset vs"
proof (induction vs)
  case Nil
  then show ?case by simp
next
  case (Cons v vs)
  then show ?case by (cases "category_of v") simp_all
qed

section \<open>Classification and block extraction\<close>

text \<open>
  C1.  Classification follows the decision table on (hasDefault, has a validation):
  (false, false) is Required, (false, true) is Trigger, (true, true) is Conditional and
  (true, false) is Optional.  The four lists it returns partition the declarations: their
  lengths add up to the number of declarations, together they hold every declaration as often
  as the input does, no declaration is in two of them, and each list keeps the order in which
  the declarations were discovered (it is the input filtered by its category).
\<close>

theorem classify_partitions:
  "requiredVars (classify vs) = filter (\<lambda>v. category_of v = Required) vs
   \<and> triggerVars (classify vs) = filter (\<lambda>v. category_of v = Trigger) vs
   \<and> conditionalVars (classify vs) = filter (\<lambda>v. category_of v = Conditional) vs
   \<and> optionalVars (classify vs) = filter (\<lambda>v. category_of v = Optional) vs
   \<and> length (requiredVars (classify vs)) + length (triggerVars (classify vs))
       + length (conditionalVars (classify vs)) + length (optionalVars (classify vs))
       = length vs
   \<and> mset (requiredVars (classify vs)) + mset (triggerVars (classify vs))
       + mset (conditionalVars (classify vs)) + mset (optionalVars (classify vs)) = mset vs
   \<and> set (requiredVars (classify vs)) \<inter> set (triggerVars (classify vs)) = {}
   \<and> set (requiredVars (classify vs)) \<inter> set (conditionalVars (classify vs)) = {}
   \<and> set (requiredVars (classify vs)) \<inter> set (optionalVars (classify vs)) = {}
   \<and> set (triggerVars (classify vs)) \<inter> set (conditionalVars (classify vs)) = {}
   \<and> set (triggerVars (classify vs)) \<inter> set (optionalVars (classify vs)) = {}
   \<and> set (conditionalVars (classify vs)) \<inter> set (optionalVars (classify vs)) = {}
   \<and> subseq (requiredVars (classify vs)) vs \<and> subseq (triggerVars (classify vs)) vs
   \<and> subseq (conditionalVars (classify vs)) vs \<and> subseq (optionalVars (classify vs)) vs"
proof -
  have r: "requiredVars (classify vs) = filter (\<lambda>v. category_of v = Required) vs"
    and t: "triggerVars (classify vs) = filter (\<lambda>v. category_of v = Trigger) vs"
    and c: "conditionalVars (classify vs) = filter (\<lambda>v. category_of v = Conditional) vs"
    and o: "optionalVars (classify vs) = filter (\<lambda>v. category_of v = Optional) vs"
    by (simp_all add: classify_def category_filters)
  have m: "mset (requiredVars (classify vs)) + mset (triggerVars (classify vs))
       + mset (conditionalVars (classify vs)) + mset (optionalVars (classify vs)) = mset vs"
    unfolding r t c o by (rule mset_by_category)
  have "size (mset (requiredVars (classify vs)) + mset (triggerVars (classify vs))
       + mset (conditionalVars (classify vs)) + mset (optionalVars (classify vs)))
       = size (mset vs)"
    by (simp only: m)
  then have l: "length (requiredVars (classify vs)) + length (triggerVars (classify vs))
       + length (conditionalVars (classify vs)) + length (optionalVars (classify vs))
       = length vs"
    by simp
  have d: "set (requiredVars (classify vs)) \<inter> set (triggerVars (classify vs)) = {}"
    "set (requiredVars (classify vs)) \<inter> set (conditionalVars (classify vs)) = {}"
    "set (requiredVars (classify vs)) \<inter> set (optionalVars (classify vs)) = {}"
    "set (triggerVars (classify vs)) \<inter> set (conditionalVars (classify vs)) = {}"
    "set (triggerVars (classify vs)) \<inter> set (optionalVars (classify vs)) = {}"
    "set (conditionalVars (classify vs)) \<inter> set (optionalVars (classify vs)) = {}"
    unfolding r t c o by auto
  have s: "subseq (requiredVars (classify vs)) vs" "subseq (triggerVars (classify vs)) vs"
    "subseq (conditionalVars (classify vs)) vs" "subseq (optionalVars (classify vs)) vs"
    unfolding r t c o by simp_all
  from r t c o l m d s show ?thesis by blast
qed

text \<open>
  C2.  When the start index points at an opening brace and the text after it is a body with
  properly nested braces followed by a closing brace, the extractor returns exactly the
  opening brace, the whole body (all nested pairs included) and that closing brace: it does
  not stop at a closing brace of a nested pair.
\<close>

theorem parseVariableBlock_balanced:
  assumes "balanced body"
  shows "parseVariableBlock (pre @ lbrace # body @ rbrace # post) (int (length pre))
         = lbrace # body @ [rbrace]"
proof -
  have neq: "lbrace \<noteq> rbrace" by (simp add: lbrace_def rbrace_def)
  have "parseVariableBlock (pre @ lbrace # body @ rbrace # post) (int (length pre))
      = scan (lbrace # body @ rbrace # post) 0 False []"
    by (simp add: parseVariableBlock_def)
  also have "\<dots> = scan (body @ rbrace # post) 1 True [lbrace]"
    using neq by (simp add: Let_def)
  also have "\<dots> = scan (rbrace # post) 1 True ([lbrace] @ body)"
    by (rule scan_in_block [OF assms]) simp
  also have "\<dots> = lbrace # body @ [rbrace]"
    using neq by (simp add: Let_def)
  finally show ?thesis .
qed

theorem parseVariableBlock_balanced_witness:
  "balanced ''a{b}c''
   \<and> parseVariableBlock (''x = '' @ lbrace # ''a{b}c'' @ rbrace # ''tail}'') (int (length ''x = ''))
     = lbrace # ''a{b}c'' @ [rbrace]"
proof -
  have bal: "balanced ''a{b}c''"
    unfolding balanced_iff_nested by code_simp
  from bal parseVariableBlock_balanced [OF bal, of "''x = ''" "''tail}''"]
  show ?thesis by (rule conjI)
qed

text \<open>
  If, reading on from the start index, the brace counter is never zero once an opening
  brace has been read (the end of the text comes first), the extractor returns all the text
  from the first opening brace to the end of the text.
\<close>

lemma parseVariableBlock_unclosed:
  assumes "\<forall>n\<le>length (drop (nat i) content).
     lbrace \<in> set (take n (drop (nat i) content)) \<longrightarrow> depth (take n (drop (nat i) content)) \<noteq> 0"
  shows "parseVariableBlock content i = dropWhile (\<lambda>c. c \<noteq> lbrace) (drop (nat i) content)"
  using scan_unclosed [of "drop (nat i) content" False 0] assms
  by (simp add: parseVariableBlock_def)

text \<open>
  C10.  For every text and every start index the extractor returns a text (the recursion
  \<^const>\<open>scan\<close> is total).  The result is an initial part of what follows the first opening
  brace at or after the start index, that brace included: no character before that brace is
  in it, a result that is not empty begins with an opening brace, and the result is empty
  when there is no opening brace at or after the start index.
\<close>

theorem parseVariableBlock_from_first_brace:
  "prefix (parseVariableBlock content i) (dropWhile (\<lambda>c. c \<noteq> lbrace) (drop (nat i) content))
   \<and> (parseVariableBlock content i = [] \<or> hd (parseVariableBlock content i) = lbrace)
   \<and> (lbrace \<notin> set (drop (nat i) content) \<longrightarrow> parseVariableBlock content i = [])"
proof -
  let ?s = "drop (nat i) content"
  let ?r = "parseVariableBlock content i"
  have p: "prefix ?r (dropWhile (\<lambda>c. c \<noteq> lbrace) ?s)"
    unfolding parseVariableBlock_def by (rule scan_prefix)
  have h: "?r = [] \<or> hd ?r = lbrace"
  proof (cases "?r")
    case Nil
    then show ?thesis by simp
  next
    case (Cons x xs)
    then obtain zs where z: "dropWhile (\<lambda>c. c \<noteq> lbrace) ?s = x # zs"
      using p by (auto simp: prefix_def)
    have "\<not> (x \<noteq> lbrace)"
      using hd_dropWhile [of "\<lambda>c. c \<noteq> lbrace" ?s] z by simp
    then show ?thesis using Cons by simp
  qed
  have e: "lbrace \<notin> set ?s \<longrightarrow> ?r = []"
  proof
    assume "lbrace \<notin> set ?s"
    then have "dropWhile (\<lambda>c. c \<noteq> lbrace) ?s = []" by auto
    with p have "prefix ?r []" by simp
    then show "?r = []" by simp
  qed
  from p h e show ?thesis by blast
qed

theorem parseVariableBlock_from_first_brace_witness:
  "parseVariableBlock ''ab} {c}d'' 1 = ''{''
   \<and> parseVariableBlock ''no brace here'' 3 = []
   \<and> parseVariableBlock ''ab{c}'' (- 2) = ''{c}''
   \<and> prefix (parseVariableBlock ''ab} {c}d'' 1)
        (dropWhile (\<lambda>c. c \<noteq> lbrace) (drop (nat 1) ''ab} {c}d''))
   \<and> lbrace \<notin> set (drop (nat 3) ''no brace here'')"
  using parseVariableBlock_from_first_brace [of "''ab} {c}d''" 1]
    parseVariableBlock_from_first_brace [of "''no brace here''" 3]
  by (simp add: parseVariableBlock_def lbrace_def rbrace_def Let_def)

section \<open>Properties of the sort\<close>

lemma mset_insert_sorted: "mset (insert_sorted cmp x xs) = add_mset x (mset xs)"
  by (induction xs) auto

lemma mset_array_sort: "mset (array_sort cmp xs) = mset xs"
  by (induction xs) (auto simp: mset_insert_sorted)

lemma set_insert_sorted: "set (insert_sorted cmp x xs) = insert x (set xs)"
  by (induction xs) auto

lemma set_array_sort: "set (array_sort cmp xs) = set xs"
  by (induction xs) (auto simp: set_insert_sorted)

lemma length_array_sort: "length (array_sort cmp xs) = length xs"
  using mset_array_sort [of cmp xs, THEN arg_cong, of size] by simp

lemma sorted_insert_sorted:
  assumes total: "\<And>a b. cmp a b \<le> 0 \<or> cmp b a \<le> 0"
    and trans: "\<And>a b c. cmp a b \<le> 0 \<Longrightarrow> cmp b c \<le> 0 \<Longrightarrow> cmp a c \<le> 0"
  shows "sorted_wrt (\<lambda>a b. cmp a b \<le> 0) xs
    \<Longrightarrow> sorted_wrt (\<lambda>a b. cmp a b \<le> (0::int)) (insert_sorted cmp x xs)"
proof (induction xs)
  case Nil
  then show ?case by simp
next
  case (Cons y ys)
  show ?case
  proof (cases "cmp x y \<le> 0")
    case True
    then have "\<forall>z\<in>set ys. cmp x z \<le> 0"
      using Cons.prems trans by auto
    then show ?thesis using True Cons.prems by simp
  next
    case False
    then have "cmp y x \<le> 0" using total [of x y] by simp
    then show ?thesis
      using False Cons by (auto simp: set_insert_sorted)
  qed
qed

lemma sorted_array_sort:
  assumes total: "\<And>a b. cmp a b \<le> 0 \<or> cmp b a \<le> 0"
    and trans: "\<And>a b c. cmp a b \<le> 0 \<Longrightarrow> cmp b c \<le> 0 \<Longrightarrow> cmp a c \<le> 0"
  shows "sorted_wrt (\<lambda>a b. cmp a b \<le> (0::int)) (array_sort cmp xs)"
proof (induction xs)
  case Nil
  then show ?case by simp
next
  case (Cons x xs)
  then show ?case
    using sorted_insert_sorted [of cmp "array_sort cmp xs" x, OF total trans] by simp
qed

lemma filter_insert_sorted:
  assumes "\<And>y. P x \<Longrightarrow> P y \<Longrightarrow> cmp x y \<le> 0"
  shows "filter P (insert_sorted cmp x xs) = (if P x then x # filter P xs else filter P xs)"
  using assms by (induction xs) auto

lemma filter_array_sort:
  assumes "\<And>x y. P x \<Longrightarrow> P y \<Longrightarrow> cmp x y \<le> 0"
  shows "filter P (array_sort cmp xs) = filter P xs"
proof (induction xs)
  case Nil
  then show ?case by simp
next
  case (Cons x xs)
  then show ?case
    using filter_insert_sorted [of P x cmp "array_sort cmp xs"] assms by simp
qed

lemma map_insert_sorted:
  "map f (insert_sorted (\<lambda>a b. cmp (f a) (f b)) x xs) = insert_sorted cmp (f x) (map f xs)"
  by (induction xs) auto

lemma map_array_sort:
  "map f (array_sort (\<lambda>a b. cmp (f a) (f b)) xs) = array_sort cmp (map f xs)"
  by (induction xs) (auto simp: map_insert_sorted)

lemma math_max_Max: "ns \<noteq> [] \<Longrightarrow> math_max ns = Max (set ns)"
proof (induction ns)
  case Nil
  then show ?case by simp
next
  case (Cons n ns)
  show ?case
  proof (cases "ns = []")
    case True
    then show ?thesis by (simp add: math_max_def)
  next
    case False
    then show ?thesis using Cons.IH by (simp add: math_max_def)
  qed
qed

section \<open>Properties of the usage synthesizer\<close>

lemma basicUsageVars_names:
  "map name (basicUsageVars cmp ctx)
   = array_sort cmp (map name (requiredVars ctx @ triggerVars ctx))"
  unfolding basicUsageVars_def by (rule map_array_sort)

lemma basicUsageLine_fun:
  "basicUsageLine m = (\<lambda>v. ''  '' @ padEnd (name v) m @ '' = '' @ [dquote] @ ''your-''
       @ replace_underscores (name v) @ [dquote])"
  by (rule ext) (simp add: basicUsageLine_def)

lemma usageLine_fun:
  "usageLine u m = (\<lambda>n. ''  '' @ padEnd n m @ '' = ''
       @ (if n = triggerVar u then [dquote] @ triggerValue u @ [dquote]
          else [dquote] @ ''your-'' @ replace_underscores n @ [dquote])
       @ (if n \<in> set (usageVariables u)
          then ''  # Required when '' @ triggerVar u @ '' = '' @ [dquote]
                 @ triggerValue u @ [dquote]
          else []))"
  by (rule ext) (simp add: usageLine_def Let_def)

text \<open>
  What holds of the basic usage for every comparator that is total and transitive: the
  rendered declarations are exactly the Required and Trigger declarations; they are in
  ascending order of the comparator; those whose names are equal keep their discovery
  order; and the block is one line per declaration, two blanks, the name padded with blanks
  to the greatest name length of the rendered set, \<open> = "your-\<close>, the name with every
  underscore replaced by a hyphen, and a closing quote.
\<close>

lemma basic_usage_by_comparator:
  assumes total: "\<And>a b. localeCompare a b \<le> 0 \<or> localeCompare b a \<le> 0"
    and trans: "\<And>a b c. localeCompare a b \<le> 0 \<Longrightarrow> localeCompare b c \<le> 0
      \<Longrightarrow> localeCompare a c \<le> 0"
  shows
    "mset (basicUsageVars localeCompare (classify vs))
       = mset (filter (\<lambda>v. category_of v = Required \<or> category_of v = Trigger) vs)
     \<and> sorted_wrt (\<lambda>a b. localeCompare (name a) (name b) \<le> 0)
          (basicUsageVars localeCompare (classify vs))
     \<and> filter (\<lambda>v. name v = k) (basicUsageVars localeCompare (classify vs))
         = filter (\<lambda>v. name v = k)
             (requiredVars (classify vs) @ triggerVars (classify vs))
     \<and> basicUsageBlock localeCompare (classify vs)
         = (if basicUsageVars localeCompare (classify vs) = [] then []
            else [newline] @ join [newline]
              (map (\<lambda>v. ''  '' @ name v
                      @ replicate (Max (set (map (\<lambda>v. length (name v))
                           (basicUsageVars localeCompare (classify vs)))) - length (name v)) blank
                      @ '' = '' @ [dquote] @ ''your-''
                      @ map (\<lambda>c. if c = underscore then hyphen else c) (name v) @ [dquote])
                 (basicUsageVars localeCompare (classify vs))) @ [newline])"
proof -
  let ?cmp = "\<lambda>a b. localeCompare (name a) (name b)"
  let ?vars = "basicUsageVars localeCompare (classify vs)"
  have refl: "localeCompare a a \<le> 0" for a
    using total [of a a] by simp
  have "mset ?vars = mset (requiredVars (classify vs)) + mset (triggerVars (classify vs))"
    by (simp add: basicUsageVars_def mset_array_sort)
  also have "\<dots> = mset (filter (\<lambda>v. category_of v = Required) vs)
      + mset (filter (\<lambda>v. category_of v = Trigger) vs)"
    by (simp add: classify_def category_filters)
  also have "\<dots> = mset (filter (\<lambda>v. category_of v = Required \<or> category_of v = Trigger) vs)"
    by (induction vs) auto
  finally have 1: "mset ?vars
      = mset (filter (\<lambda>v. category_of v = Required \<or> category_of v = Trigger) vs)" .
  have 2: "sorted_wrt (\<lambda>a b. ?cmp a b \<le> 0) ?vars"
    unfolding basicUsageVars_def
    by (rule sorted_array_sort) (use total trans in blast)+
  have 3: "filter (\<lambda>v. name v = k) ?vars
      = filter (\<lambda>v. name v = k) (requiredVars (classify vs) @ triggerVars (classify vs))"
    unfolding basicUsageVars_def
    by (rule filter_array_sort) (simp add: refl)
  have 4: "basicUsageBlock localeCompare (classify vs)
         = (if ?vars = [] then []
            else [newline] @ join [newline]
              (map (\<lambda>v. ''  '' @ name v
                      @ replicate (Max (set (map (\<lambda>v. length (name v)) ?vars)) - length (name v)) blank
                      @ '' = '' @ [dquote] @ ''your-''
                      @ map (\<lambda>c. if c = underscore then hyphen else c) (name v) @ [dquote])
                 ?vars) @ [newline])"
  proof (cases "?vars = []")
    case True
    then show ?thesis by (simp add: basicUsageBlock_def)
  next
    case False
    then have "math_max (map (\<lambda>v. length (name v)) ?vars)
        = Max (set (map (\<lambda>v. length (name v)) ?vars))"
      by (intro math_max_Max) simp
    then show ?thesis
      using False
      by (simp add: basicUsageBlock_def Let_def basicUsageLine_fun padEnd_def
          replace_underscores_def)
  qed
  from 1 2 3 4 show ?thesis by blast
qed

text \<open>
  The claim that the basic usage does not depend on the discovery order fails where the
  comparator takes two different names for equal, as the collation order of the runtime
  does for names that differ in a control character: the stable sort then keeps the
  discovery order, and the two lines change places with it.
\<close>

lemma basic_usage_depends_on_discovery_order:
  assumes "localeCompare (''a'' @ [CHR 0x01]) ''a'' = 0"
    and "localeCompare ''a'' (''a'' @ [CHR 0x01]) = 0"
  shows "mset (rev control_declarations) = mset control_declarations
     \<and> map name (basicUsageVars localeCompare (classify control_declarations))
         = [''a'' @ [CHR 0x01], ''a'']
     \<and> map name (basicUsageVars localeCompare (classify (rev control_declarations)))
         = [''a'', ''a'' @ [CHR 0x01]]
     \<and> basicUsageBlock localeCompare (classify (rev control_declarations))
         \<noteq> basicUsageBlock localeCompare (classify control_declarations)"
  using assms
  by (simp add: control_declarations_def classify_def truthy_def basicUsageVars_def
      basicUsageBlock_def Let_def basicUsageLine_def math_max_def padEnd_def
      replace_underscores_def)

lemma collationCompare_control:
  "collationCompare (''a'' @ [CHR 0x01]) ''a'' = 0 \<and> collationCompare ''a'' (''a'' @ [CHR 0x01]) = 0"
  by code_simp

text \<open>
  C3, at the declarations \<open>bucket2\<close> and \<open>bucket_name\<close>.  The basic usage is in the
  order of the runtime's comparator, and that is not the lexicographic order of the names.
  For a comparator that puts \<open>bucket_name\<close> before \<open>bucket2\<close>, as the collation order
  of the runtime does, the basic usage lists \<open>bucket_name\<close> first, whatever the discovery
  order, while in the lexicographic order of the code units, which is the order that the
  end-to-end test of the repository checks with the default sort, \<open>bucket2\<close> comes first.
\<close>

theorem basic_usage_order_not_lexicographic:
  assumes "localeCompare ''bucket_name'' ''bucket2'' < 0"
    and "0 < localeCompare ''bucket2'' ''bucket_name''"
  shows "map name (basicUsageVars localeCompare (classify bucket_declarations))
         = [''bucket_name'', ''bucket2'']
     \<and> map name (basicUsageVars localeCompare (classify (rev bucket_declarations)))
         = [''bucket_name'', ''bucket2'']
     \<and> basicUsageBlock localeCompare (classify bucket_declarations)
         = [newline] @ ''  bucket_name = '' @ [dquote] @ ''your-bucket-name'' @ [dquote]
           @ [newline] @ ''  bucket2     = '' @ [dquote] @ ''your-bucket2'' @ [dquote]
           @ [newline]
     \<and> array_sort lexCompare (map name bucket_declarations) = [''bucket2'', ''bucket_name'']
     \<and> lexCompare ''bucket2'' ''bucket_name'' < 0"
  using assms
  by (simp add: bucket_declarations_def classify_def truthy_def basicUsageVars_def
      basicUsageBlock_def Let_def basicUsageLine_def math_max_def padEnd_def
      replace_underscores_def underscore_def hyphen_def blank_def lexCompare_def less_char_def)

theorem basic_usage_order_not_lexicographic_witness:
  "collationCompare ''bucket_name'' ''bucket2'' < 0
   \<and> 0 < collationCompare ''bucket2'' ''bucket_name''
   \<and> map name (basicUsageVars collationCompare (classify bucket_declarations))
       = [''bucket_name'', ''bucket2'']
   \<and> array_sort lexCompare (map name bucket_declarations) = [''bucket2'', ''bucket_name'']"
proof -
  have a: "collationCompare ''bucket_name'' ''bucket2'' < 0"
    and b: "0 < collationCompare ''bucket2'' ''bucket_name''"
    by code_simp+
  from basic_usage_order_not_lexicographic [OF a b] a b show ?thesis by blast
qed

text \<open>
  C9.  The empty text has no declaration.  For no declaration at all the four category
  lists are empty and the basic-usage block is the empty text, whatever the comparator.
  Nothing on this path can raise: the greatest name length is only computed for a list that
  is not empty.
\<close>

theorem empty_input_renders_nothing:
  "extractVariables [] = []
   \<and> requiredVars (classify []) = [] \<and> triggerVars (classify []) = []
   \<and> conditionalVars (classify []) = [] \<and> optionalVars (classify []) = []
   \<and> basicUsageVars localeCompare (classify []) = []
   \<and> basicUsageBlock localeCompare (classify []) = []"
proof -
  have "rx_exec variableRegex [] 0 = None"
    by (simp add: rx_exec_def variableRegex_def lit_def Chr_def)
  then have "extractVariables [] = []"
    by (simp add: extractVariables_def variableMatches.simps [of "[]" 0])
  then show ?thesis
    by (simp add: classify_def basicUsageVars_def basicUsageBlock_def)
qed

text \<open>
  C4.  In the block of a usage group there is one line for every Required name, every
  Trigger name and every name of the group's variable list, whether or not that name is a
  known Conditional declaration.  The line of a name is two blanks, the name padded to the
  greatest length, \<open> = \<close>, then the group's trigger value in quotes when the name is
  the group's trigger variable and the placeholder \<open>"your-name"\<close> otherwise, and then,
  when the name is in the group's variable list, the comment
  \<open>  # Required when trigger = "value"\<close>.
\<close>

theorem conditional_usage_render:
  "varsLines localeCompare ctx u
     = map (\<lambda>n. ''  '' @ n
              @ replicate (Max (set (map length (allVars localeCompare ctx u))) - length n) blank
              @ '' = ''
              @ (if n = triggerVar u then [dquote] @ triggerValue u @ [dquote]
                 else [dquote] @ ''your-''
                        @ map (\<lambda>c. if c = underscore then hyphen else c) n @ [dquote])
              @ (if n \<in> set (usageVariables u)
                 then ''  # Required when '' @ triggerVar u @ '' = '' @ [dquote]
                        @ triggerValue u @ [dquote]
                 else []))
         (allVars localeCompare ctx u)
   \<and> mset (allVars localeCompare ctx u)
       = mset (map name (requiredVars ctx)) + mset (map name (triggerVars ctx))
         + mset (usageVariables u)
   \<and> set (usageVariables u) \<subseteq> set (allVars localeCompare ctx u)
   \<and> length (varsLines localeCompare ctx u)
       = length (requiredVars ctx) + length (triggerVars ctx) + length (usageVariables u)
   \<and> varsBlock localeCompare ctx u = join [newline] (varsLines localeCompare ctx u)"
proof -
  let ?all = "allVars localeCompare ctx u"
  have 1: "varsLines localeCompare ctx u
     = map (\<lambda>n. ''  '' @ n
              @ replicate (Max (set (map length ?all)) - length n) blank
              @ '' = ''
              @ (if n = triggerVar u then [dquote] @ triggerValue u @ [dquote]
                 else [dquote] @ ''your-''
                        @ map (\<lambda>c. if c = underscore then hyphen else c) n @ [dquote])
              @ (if n \<in> set (usageVariables u)
                 then ''  # Required when '' @ triggerVar u @ '' = '' @ [dquote]
                        @ triggerValue u @ [dquote]
                 else []))
         ?all"
  proof (cases "?all = []")
    case True
    then show ?thesis by (simp add: varsLines_def)
  next
    case False
    then have "math_max (map length ?all) = Max (set (map length ?all))"
      by (intro math_max_Max) simp
    then show ?thesis
      by (simp add: varsLines_def Let_def usageLine_fun padEnd_def replace_underscores_def)
  qed
  have 2: "mset ?all = mset (map name (requiredVars ctx)) + mset (map name (triggerVars ctx))
         + mset (usageVariables u)"
    by (simp add: allVars_def mset_array_sort)
  have 3: "set (usageVariables u) \<subseteq> set ?all"
    by (auto simp: allVars_def set_array_sort)
  have 4: "length (varsLines localeCompare ctx u)
       = length (requiredVars ctx) + length (triggerVars ctx) + length (usageVariables u)"
    by (simp add: varsLines_def Let_def allVars_def length_array_sort)
  have 5: "varsBlock localeCompare ctx u = join [newline] (varsLines localeCompare ctx u)"
    by (simp add: varsBlock_def)
  from 1 2 3 4 5 show ?thesis by blast
qed

theorem conditional_usage_render_witness:
  "varsLines lexCompare (classify s3_variables) glacier_usage
     = [''  bucket_name        = '' @ [dquote] @ ''your-bucket-name'' @ [dquote],
        ''  environment        = '' @ [dquote] @ ''your-environment'' @ [dquote],
        ''  test_glacier_days  = '' @ [dquote] @ ''your-test-glacier-days'' @ [dquote]
          @ ''  # Required when test_storage_class = '' @ [dquote] @ ''glacier'' @ [dquote],
        ''  test_storage_class = '' @ [dquote] @ ''glacier'' @ [dquote]]
   \<and> varsLines lexCompare (classify s3_variables)
        (glacier_usage\<lparr>usageVariables := [''unknown_name'']\<rparr>) ! 3
     = ''  unknown_name       = '' @ [dquote] @ ''your-unknown-name'' @ [dquote]
          @ ''  # Required when test_storage_class = '' @ [dquote] @ ''glacier'' @ [dquote]
   \<and> varsBlock lexCompare (classify s3_variables) glacier_usage
     = ''  bucket_name        = '' @ [dquote] @ ''your-bucket-name'' @ [dquote] @ [newline]
       @ ''  environment        = '' @ [dquote] @ ''your-environment'' @ [dquote] @ [newline]
       @ ''  test_glacier_days  = '' @ [dquote] @ ''your-test-glacier-days'' @ [dquote]
       @ ''  # Required when test_storage_class = '' @ [dquote] @ ''glacier'' @ [dquote]
       @ [newline]
       @ ''  test_storage_class = '' @ [dquote] @ ''glacier'' @ [dquote]"
  using conditional_usage_render [of lexCompare "classify s3_variables" glacier_usage]
    conditional_usage_render [of lexCompare "classify s3_variables"
      "glacier_usage\<lparr>usageVariables := [''unknown_name'']\<rparr>"]
  by (simp add: s3_variables_def glacier_usage_def classify_def truthy_def varsLines_def
      varsBlock_def allVars_def Let_def lexCompare_def less_char_def usageLine_def math_max_def
      padEnd_def replace_underscores_def underscore_def hyphen_def blank_def)

section \<open>Properties of the matcher\<close>

lemma lastp_Nil [simp]: "lastp p [] = p"
  by (simp add: lastp_def)

lemma lastp_Cons [simp]: "lastp p (x # w) = lastp (Some x) w"
  by (simp add: lastp_def)

lemma lastp_append [simp]: "lastp p (u @ v) = lastp (lastp p u) v"
  by (induction u arbitrary: p) simp_all

lemma accepts_lit: "accepts (lit l @ r) w = (\<exists>v. w = l @ v \<and> accepts r v)"
  by (induction l arbitrary: w) (auto simp: lit_def Chr_def)

lemma accepts_Chr: "accepts (Chr c # r) w = (\<exists>v. w = c # v \<and> accepts r v)"
  by (auto simp: Chr_def)

lemma accepts_StarI: "list_all c u \<Longrightarrow> accepts r v \<Longrightarrow> accepts (Star c # r) (u @ v)"
  unfolding accepts.simps by blast

lemma accepts_LazyStarI:
  "list_all c u \<Longrightarrow> accepts r v \<Longrightarrow> accepts (LazyStar c # r) (u @ v)"
  unfolding accepts.simps by blast

lemma rmatch_split:
  "GOpen \<notin> set r1 \<Longrightarrow> GClose \<notin> set r1 \<Longrightarrow> rmatch (r1 @ r2) p s g = Some res
   \<Longrightarrow> \<exists>w s'. s = w @ s' \<and> accepts r1 w \<and> rmatch r2 (lastp p w) s' g = Some res"
proof (induction "length r1 + length s" arbitrary: r1 s p rule: less_induct)
  case less
  show ?case
  proof (cases r1)
    case Nil
    with less.prems show ?thesis by simp
  next
    case (Cons a r)
    have gf: "GOpen \<notin> set r" "GClose \<notin> set r"
      using less.prems(1,2) Cons by simp_all
    show ?thesis
    proof (cases a)
      case (One c)
      from less.prems(3) Cons One obtain x xs where s: "s = x # xs" and cx: "c x"
        and m: "rmatch (r @ r2) (Some x) xs g = Some res"
        by (cases s) (auto split: if_splits)
      have "length r + length xs < length r1 + length s" using Cons s by simp
      from less.hyps [OF this gf m] obtain w s' where
        w: "xs = w @ s'" "accepts r w" "rmatch r2 (lastp (Some x) w) s' g = Some res"
        by blast
      have "s = (x # w) @ s' \<and> accepts r1 (x # w) \<and> rmatch r2 (lastp p (x # w)) s' g = Some res"
        using w s cx Cons One by simp
      then show ?thesis by blast
    next
      case (Star c)
      consider (more) x xs where "s = x # xs" "c x"
          "rmatch (Star c # r @ r2) (Some x) xs g = Some res"
        | (stop) "rmatch (r @ r2) p s g = Some res"
        using less.prems(3) Cons Star by (cases s) (auto split: if_splits option.splits)
      then show ?thesis
      proof cases
        case more
        have "length (Star c # r) + length xs < length r1 + length s"
          using Cons more(1) by simp
        moreover have "GOpen \<notin> set (Star c # r)" "GClose \<notin> set (Star c # r)"
          using gf by simp_all
        ultimately obtain w s' where
          w: "xs = w @ s'" "accepts (Star c # r) w"
            "rmatch r2 (lastp (Some x) w) s' g = Some res"
          using less.hyps more(3) by (metis append_Cons)
        from w(2) obtain u v where "w = u @ v" "list_all c u" "accepts r v" by auto
        then have uv: "x # w = (x # u) @ v" "list_all c (x # u)" "accepts r v"
          using more(2) by simp_all
        have "accepts (Star c # r) (x # w)"
          unfolding uv(1) by (rule accepts_StarI [OF uv(2,3)])
        then have "s = (x # w) @ s' \<and> accepts r1 (x # w)
            \<and> rmatch r2 (lastp p (x # w)) s' g = Some res"
          using w more(1) Cons Star by simp
        then show ?thesis by blast
      next
        case stop
        have "length r + length s < length r1 + length s" using Cons by simp
        from less.hyps [OF this gf stop] obtain w s' where
          w: "s = w @ s'" "accepts r w" "rmatch r2 (lastp p w) s' g = Some res"
          by blast
        have "accepts r1 w"
          using accepts_StarI [of c "[]" r w] w(2) Cons Star by simp
        with w show ?thesis by blast
      qed
    next
      case (LazyStar c)
      consider (stop) "rmatch (r @ r2) p s g = Some res"
        | (more) x xs where "s = x # xs" "c x"
          "rmatch (LazyStar c # r @ r2) (Some x) xs g = Some res"
        using less.prems(3) Cons LazyStar by (cases s) (auto split: if_splits option.splits)
      then show ?thesis
      proof cases
        case more
        have "length (LazyStar c # r) + length xs < length r1 + length s"
          using Cons more(1) by simp
        moreover have "GOpen \<notin> set (LazyStar c # r)" "GClose \<notin> set (LazyStar c # r)"
          using gf by simp_all
        ultimately obtain w s' where
          w: "xs = w @ s'" "accepts (LazyStar c # r) w"
            "rmatch r2 (lastp (Some x) w) s' g = Some res"
          using less.hyps more(3) by (metis append_Cons)
        from w(2) obtain u v where "w = u @ v" "list_all c u" "accepts r v" by auto
        then have uv: "x # w = (x # u) @ v" "list_all c (x # u)" "accepts r v"
          using more(2) by simp_all
        have "accepts (LazyStar c # r) (x # w)"
          unfolding uv(1) by (rule accepts_LazyStarI [OF uv(2,3)])
        then have "s = (x # w) @ s' \<and> accepts r1 (x # w)
            \<and> rmatch r2 (lastp p (x # w)) s' g = Some res"
          using w more(1) Cons LazyStar by simp
        then show ?thesis by blast
      next
        case stop
        have "length r + length s < length r1 + length s" using Cons by simp
        from less.hyps [OF this gf stop] obtain w s' where
          w: "s = w @ s'" "accepts r w" "rmatch r2 (lastp p w) s' g = Some res"
          by blast
        have "accepts r1 w"
          using accepts_LazyStarI [of c "[]" r w] w(2) Cons LazyStar by simp
        with w show ?thesis by blast
      qed
    next
      case WordB
      from less.prems(3) Cons WordB have m: "rmatch (r @ r2) p s g = Some res"
        by (auto split: if_splits)
      have "length r + length s < length r1 + length s" using Cons by simp
      from less.hyps [OF this gf m] obtain w s' where
        w: "s = w @ s'" "accepts r w" "rmatch r2 (lastp p w) s' g = Some res"
        by blast
      have "accepts r1 w" using w(2) Cons WordB by simp
      with w show ?thesis by blast
    next
      case GOpen
      with less.prems(1) Cons show ?thesis by simp
    next
      case GClose
      with less.prems(2) Cons show ?thesis by simp
    qed
  qed
qed
lemma rmatch_Nil_eq: "rmatch [] p s g = Some (e, go, gc) \<longleftrightarrow> s = e \<and> g = (go, gc)"
  by (cases g) auto

lemma rmatch_nogroup:
  assumes "GOpen \<notin> set r" "GClose \<notin> set r" "rmatch r p s g = Some (e, go, gc)"
  shows "\<exists>w. s = w @ e \<and> accepts r w \<and> g = (go, gc)"
proof -
  from assms(3) have "rmatch (r @ []) p s g = Some (e, go, gc)" by simp
  from rmatch_split [OF assms(1,2) this] show ?thesis
    by (auto simp: rmatch_Nil_eq)
qed

lemma rmatch_group:
  assumes r1: "GOpen \<notin> set r1" "GClose \<notin> set r1"
    and r2: "GOpen \<notin> set r2" "GClose \<notin> set r2"
    and r3: "GOpen \<notin> set r3" "GClose \<notin> set r3"
    and m: "rmatch (r1 @ GOpen # r2 @ GClose # r3) p s g = Some (e, go, gc)"
  shows "\<exists>w1 w2 w3. s = w1 @ w2 @ w3 @ e \<and> accepts r1 w1 \<and> accepts r2 w2 \<and> accepts r3 w3
     \<and> go = w2 @ w3 @ e \<and> gc = w3 @ e"
proof -
  obtain g1 g2 where g: "g = (g1, g2)" by (cases g)
  from rmatch_split [OF r1 m] obtain w1 s1 where
    1: "s = w1 @ s1" "accepts r1 w1"
      "rmatch (GOpen # r2 @ GClose # r3) (lastp p w1) s1 g = Some (e, go, gc)"
    by blast
  from 1(3) g have "rmatch (r2 @ GClose # r3) (lastp p w1) s1 (s1, g2) = Some (e, go, gc)"
    by simp
  from rmatch_split [OF r2 this] obtain w2 s2 where
    2: "s1 = w2 @ s2" "accepts r2 w2"
      "rmatch (GClose # r3) (lastp (lastp p w1) w2) s2 (s1, g2) = Some (e, go, gc)"
    by blast
  from 2(3) have "rmatch r3 (lastp (lastp p w1) w2) s2 (s1, s2) = Some (e, go, gc)"
    by simp
  from rmatch_nogroup [OF r3 this] obtain w3 where
    3: "s2 = w3 @ e" "accepts r3 w3" "(s1, s2) = (go, gc)"
    by blast
  from 1 2 3 have "s = w1 @ w2 @ w3 @ e \<and> accepts r1 w1 \<and> accepts r2 w2 \<and> accepts r3 w3
     \<and> go = w2 @ w3 @ e \<and> gc = w3 @ e"
    by auto
  then show ?thesis by blast
qed

lemma rmatch_prev:
  "WordB \<notin> set r \<Longrightarrow> rmatch r p s g = rmatch r q s g"
proof (induction "length r + length s" arbitrary: r s g rule: less_induct)
  case less
  show ?case
  proof (cases r)
    case Nil
    then show ?thesis by (cases g) simp
  next
    case (Cons a r')
    have wb: "WordB \<notin> set r'" "a \<noteq> WordB" using less.prems Cons by auto
    have A: "rmatch r' p s' g' = rmatch r' q s' g'" if "length s' \<le> length s" for s' g'
      using less.hyps [of r' s' g'] that wb(1) Cons by simp
    obtain go gc where g: "g = (go, gc)" by (cases g)
    show ?thesis
    proof (cases s)
      case Nil
      with Cons wb(2) g A [of "[]"] show ?thesis by (cases a) simp_all
    next
      case s: (Cons x xs)
      with Cons wb(2) g A [of "x # xs"] A [of s] show ?thesis
        by (cases a) (simp_all split: option.splits)
    qed
  qed
qed

lemma rmatch_complete:
  "WordB \<notin> set r \<Longrightarrow> accepts r w \<Longrightarrow> rmatch r p (w @ e) g \<noteq> None"
proof (induction r arbitrary: w p g)
  case Nil
  then show ?case by (cases g) simp
next
  case (Cons a r)
  have wb: "WordB \<notin> set r" using Cons.prems(1) by simp
  obtain go gc where g: "g = (go, gc)" by (cases g)
  show ?case
  proof (cases a)
    case (One c)
    with Cons.prems(2) obtain x v where "w = x # v" "c x" "accepts r v" by auto
    with Cons.IH [OF wb, of v "Some x" g] One show ?thesis by simp
  next
    case (Star c)
    with Cons.prems(2) obtain u v where w: "w = u @ v" "list_all c u" "accepts r v" by auto
    have "rmatch (Star c # r) p' (u @ v @ e) g \<noteq> None" for p'
      using w(2)
    proof (induction u arbitrary: p')
      case Nil
      have "rmatch r p' (v @ e) g \<noteq> None" by (rule Cons.IH [OF wb w(3)])
      then show ?case by (cases "v @ e") (auto split: option.splits)
    next
      case (Cons x u)
      then have cx: "c x" and cu: "list_all c u" by simp_all
      from Cons.IH [OF cu, of "Some x"] obtain res where
        "rmatch (Star c # r) (Some x) (u @ v @ e) g = Some res"
        by auto
      with cx show ?case by simp
    qed
    with w(1) Star show ?thesis by simp
  next
    case (LazyStar c)
    with Cons.prems(2) obtain u v where w: "w = u @ v" "list_all c u" "accepts r v" by auto
    have "rmatch (LazyStar c # r) p' (u @ v @ e) g \<noteq> None" for p'
      using w(2)
    proof (induction u arbitrary: p')
      case Nil
      have "rmatch r p' (v @ e) g \<noteq> None" by (rule Cons.IH [OF wb w(3)])
      then show ?case by (cases "v @ e") (auto split: option.splits)
    next
      case (Cons x u)
      then have cx: "c x" and cu: "list_all c u" by simp_all
      from Cons.IH [OF cu, of "Some x"] obtain res where
        "rmatch (LazyStar c # r) (Some x) (u @ v @ e) g = Some res"
        by auto
      with cx show ?case by (cases res) (simp split: option.splits)
    qed
    with w(1) LazyStar show ?thesis by simp
  next
    case WordB
    with Cons.prems(1) show ?thesis by simp
  next
    case GOpen
    with Cons.prems(2) Cons.IH [OF wb, of w p "(w @ e, gc)"] g show ?thesis by simp
  next
    case GClose
    with Cons.prems(2) Cons.IH [OF wb, of w p "(go, w @ e)"] g show ?thesis by simp
  qed
qed

lemma rsearch_Some:
  "rsearch r p s = Some m \<Longrightarrow>
     \<exists>pre. s = pre @ mstart m
       \<and> rmatch r (lastp p pre) (mstart m) ([], []) = Some (mend m, gopen m, gclose m)
       \<and> (\<forall>k<length pre. rmatch r (lastp p (take k pre)) (drop k s) ([], []) = None)"
proof (induction r p s rule: rsearch.induct)
  case (1 r p)
  then have "[] = [] @ mstart m
      \<and> rmatch r (lastp p []) (mstart m) ([], []) = Some (mend m, gopen m, gclose m)
      \<and> (\<forall>k<length ([]::string). rmatch r (lastp p (take k [])) (drop k []) ([], []) = None)"
    by (auto split: option.splits)
  then show ?case by blast
next
  case (2 r p x xs)
  show ?case
  proof (cases "rmatch r p (x # xs) ([], [])")
    case (Some a)
    with "2.prems" have "x # xs = [] @ mstart m
      \<and> rmatch r (lastp p []) (mstart m) ([], []) = Some (mend m, gopen m, gclose m)
      \<and> (\<forall>k<length ([]::string).
            rmatch r (lastp p (take k [])) (drop k (x # xs)) ([], []) = None)"
      by (auto split: prod.splits)
    then show ?thesis by blast
  next
    case None
    with "2.prems" have "rsearch r (Some x) xs = Some m" by simp
    from "2.IH" [OF None this] obtain pre where
      pre: "xs = pre @ mstart m"
        "rmatch r (lastp (Some x) pre) (mstart m) ([], []) = Some (mend m, gopen m, gclose m)"
        "\<forall>k<length pre. rmatch r (lastp (Some x) (take k pre)) (drop k xs) ([], []) = None"
      by blast
    have "\<forall>k<length (x # pre).
        rmatch r (lastp p (take k (x # pre))) (drop k (x # xs)) ([], []) = None"
    proof (intro allI impI)
      fix k assume k: "k < length (x # pre)"
      show "rmatch r (lastp p (take k (x # pre))) (drop k (x # xs)) ([], []) = None"
      proof (cases k)
        case 0
        with None show ?thesis by simp
      next
        case (Suc j)
        with k pre(3) show ?thesis by simp
      qed
    qed
    with pre(1,2) have "x # xs = (x # pre) @ mstart m
      \<and> rmatch r (lastp p (x # pre)) (mstart m) ([], []) = Some (mend m, gopen m, gclose m)
      \<and> (\<forall>k<length (x # pre).
            rmatch r (lastp p (take k (x # pre))) (drop k (x # xs)) ([], []) = None)"
      by simp
    then show ?thesis by blast
  qed
qed

lemma rsearch_None:
  "rsearch r p s = None \<Longrightarrow> k \<le> length s
   \<Longrightarrow> rmatch r (lastp p (take k s)) (drop k s) ([], []) = None"
proof (induction r p s arbitrary: k rule: rsearch.induct)
  case (1 r p)
  then show ?case by (auto split: option.splits)
next
  case (2 r p x xs)
  from "2.prems"(1) have n: "rmatch r p (x # xs) ([], []) = None"
    and r: "rsearch r (Some x) xs = None"
    by (auto split: option.splits)
  show ?case
  proof (cases k)
    case 0
    with n show ?thesis by simp
  next
    case (Suc j)
    with "2.IH" [OF n r, of j] "2.prems"(2) show ?thesis by simp
  qed
qed

lemma rsearch_found_iff:
  "rsearch r p s \<noteq> None
   \<longleftrightarrow> (\<exists>pre st. s = pre @ st \<and> rmatch r (lastp p pre) st ([], []) \<noteq> None)"
proof
  assume "rsearch r p s \<noteq> None"
  then obtain m where "rsearch r p s = Some m" by auto
  from rsearch_Some [OF this] show
    "\<exists>pre st. s = pre @ st \<and> rmatch r (lastp p pre) st ([], []) \<noteq> None"
    by (metis option.distinct(1))
next
  assume "\<exists>pre st. s = pre @ st \<and> rmatch r (lastp p pre) st ([], []) \<noteq> None"
  then obtain pre st where s: "s = pre @ st"
    and m: "rmatch r (lastp p pre) st ([], []) \<noteq> None"
    by blast
  show "rsearch r p s \<noteq> None"
  proof
    assume "rsearch r p s = None"
    from rsearch_None [OF this, of "length pre"] s m show False by simp
  qed
qed

text \<open>
  The matcher is sound for the words of a pattern with or without a capture group, and so
  it finds a match exactly when a word of the pattern begins the text.  A lazy star stops
  at the first position where the rest of the pattern matches, a greedy star at the last.
\<close>

lemma rmatch_sound:
  "rmatch r p s g = Some res \<Longrightarrow> \<exists>w. s = w @ fst res \<and> accepts r w"
proof (induction r p s g arbitrary: res rule: rmatch.induct)
  case (1 p s go gc)
  then have "s = [] @ fst res \<and> accepts [] []" by auto
  then show ?case by blast
next
  case (2 c r p g)
  then show ?case by simp
next
  case (3 c r p x xs g)
  from "3.prems" have cx: "c x" and m: "rmatch r (Some x) xs g = Some res"
    by (auto split: if_splits)
  from "3.IH" [OF cx m] obtain w where "xs = w @ fst res" "accepts r w" by blast
  then have "x # xs = (x # w) @ fst res \<and> accepts (One c # r) (x # w)"
    using cx by simp
  then show ?case by blast
next
  case (4 c r p g)
  from "4.prems" have "rmatch r p [] g = Some res" by simp
  from "4.IH" [OF this] obtain w where w: "[] = w @ fst res" "accepts r w" by blast
  have "accepts (Star c # r) w"
    using accepts_StarI [of c "[]" r w] w(2) by simp
  with w(1) show ?case by blast
next
  case (5 c r p x xs g)
  consider (more) "c x" "rmatch (Star c # r) (Some x) xs g = Some res"
    | (stop) "rmatch r p (x # xs) g = Some res"
      "c x \<longrightarrow> rmatch (Star c # r) (Some x) xs g = None"
    using "5.prems" by (auto split: if_splits option.splits)
  then show ?case
  proof cases
    case more
    from "5.IH"(1) [OF more] obtain w where w: "xs = w @ fst res" "accepts (Star c # r) w"
      by blast
    from w(2) obtain u v where uv: "w = u @ v" "list_all c u" "accepts r v" by auto
    have "list_all c (x # u)" using uv(2) more(1) by simp
    then have "accepts (Star c # r) ((x # u) @ v)"
      using uv(3) by (rule accepts_StarI)
    then have "x # xs = (x # w) @ fst res \<and> accepts (Star c # r) (x # w)"
      using w(1) uv(1) by simp
    then show ?thesis by blast
  next
    case stop
    have "\<exists>w. x # xs = w @ fst res \<and> accepts r w"
    proof (cases "c x")
      case True
      with stop(2) have "rmatch (Star c # r) (Some x) xs g = None" by simp
      from "5.IH"(2) [OF True this stop(1)] show ?thesis .
    next
      case False
      from "5.IH"(3) [OF False stop(1)] show ?thesis .
    qed
    then obtain w where w: "x # xs = w @ fst res" "accepts r w" by blast
    have "accepts (Star c # r) w"
      using accepts_StarI [of c "[]" r w] w(2) by simp
    with w(1) show ?thesis by blast
  qed
next
  case (6 c r p g)
  from "6.prems" have "rmatch r p [] g = Some res" by simp
  from "6.IH" [OF this] obtain w where w: "[] = w @ fst res" "accepts r w" by blast
  have "accepts (LazyStar c # r) w"
    using accepts_LazyStarI [of c "[]" r w] w(2) by simp
  with w(1) show ?case by blast
next
  case (7 c r p x xs g)
  consider (stop) "rmatch r p (x # xs) g = Some res"
    | (more) "rmatch r p (x # xs) g = None" "c x"
      "rmatch (LazyStar c # r) (Some x) xs g = Some res"
    using "7.prems" by (auto split: if_splits option.splits)
  then show ?case
  proof cases
    case stop
    from "7.IH"(1) [OF stop] obtain w where w: "x # xs = w @ fst res" "accepts r w" by blast
    have "accepts (LazyStar c # r) w"
      using accepts_LazyStarI [of c "[]" r w] w(2) by simp
    with w(1) show ?thesis by blast
  next
    case more
    from "7.IH"(2) [OF more] obtain w where
      w: "xs = w @ fst res" "accepts (LazyStar c # r) w"
      by blast
    from w(2) obtain u v where uv: "w = u @ v" "list_all c u" "accepts r v" by auto
    have "list_all c (x # u)" using uv(2) more(2) by simp
    then have "accepts (LazyStar c # r) ((x # u) @ v)"
      using uv(3) by (rule accepts_LazyStarI)
    then have "x # xs = (x # w) @ fst res \<and> accepts (LazyStar c # r) (x # w)"
      using w(1) uv(1) by simp
    then show ?thesis by blast
  qed
next
  case (8 r p s g)
  from "8.prems" have b: "word_before p \<noteq> word_after s" and m: "rmatch r p s g = Some res"
    by (auto split: if_splits)
  from "8.IH" [OF b m] show ?case by simp
next
  case (9 r p s go gc)
  from "9.prems" have "rmatch r p s (s, gc) = Some res" by simp
  from "9.IH" [OF this] show ?case by simp
next
  case (10 r p s go gc)
  from "10.prems" have "rmatch r p s (go, s) = Some res" by simp
  from "10.IH" [OF this] show ?case by simp
qed

lemma rmatch_iff:
  assumes "WordB \<notin> set r"
  shows "rmatch r p s g \<noteq> None \<longleftrightarrow> (\<exists>w e. s = w @ e \<and> accepts r w)"
proof
  assume "rmatch r p s g \<noteq> None"
  then obtain res where "rmatch r p s g = Some res" by auto
  from rmatch_sound [OF this] show "\<exists>w e. s = w @ e \<and> accepts r w" by blast
next
  assume "\<exists>w e. s = w @ e \<and> accepts r w"
  then obtain w e where "s = w @ e" "accepts r w" by blast
  with rmatch_complete [OF assms, of w p e g] show "rmatch r p s g \<noteq> None" by simp
qed

lemma rmatch_lazy_first:
  "rmatch (LazyStar c # r) p s g = Some res \<Longrightarrow>
     \<exists>u s'. s = u @ s' \<and> list_all c u \<and> rmatch r (lastp p u) s' g = Some res
       \<and> (\<forall>n<length u. rmatch r (lastp p (take n u)) (drop n s) g = None)"
proof (induction s arbitrary: p)
  case Nil
  then have m: "rmatch r p [] g = Some res" by simp
  have "[] = [] @ ([]::string)" "list_all c []" by simp_all
  moreover have "rmatch r (lastp p []) [] g = Some res" using m by simp
  moreover have "\<forall>n<length ([]::string). rmatch r (lastp p (take n [])) (drop n []) g = None"
    by simp
  ultimately show ?case by blast
next
  case (Cons x xs)
  show ?case
  proof (cases "rmatch r p (x # xs) g")
    case (Some m)
    with Cons.prems have m: "rmatch r p (x # xs) g = Some res" by simp
    have "x # xs = [] @ (x # xs)" "list_all c []" by simp_all
    moreover have "rmatch r (lastp p []) (x # xs) g = Some res" using m by simp
    moreover have "\<forall>n<length ([]::string).
        rmatch r (lastp p (take n [])) (drop n (x # xs)) g = None"
      by simp
    ultimately show ?thesis by blast
  next
    case None
    with Cons.prems have cx: "c x"
      and m: "rmatch (LazyStar c # r) (Some x) xs g = Some res"
      by (simp_all split: if_splits)
    from Cons.IH [OF m] obtain u s' where
      u: "xs = u @ s'" "list_all c u" "rmatch r (lastp (Some x) u) s' g = Some res"
        "\<forall>n<length u. rmatch r (lastp (Some x) (take n u)) (drop n xs) g = None"
      by blast
    have A: "x # xs = (x # u) @ s'" using u(1) by simp
    have B: "list_all c (x # u)" using u(2) cx by simp
    have C: "rmatch r (lastp p (x # u)) s' g = Some res" using u(3) by simp
    have D: "\<forall>n<length (x # u).
        rmatch r (lastp p (take n (x # u))) (drop n (x # xs)) g = None"
    proof (intro allI impI)
      fix n assume n: "n < length (x # u)"
      show "rmatch r (lastp p (take n (x # u))) (drop n (x # xs)) g = None"
      proof (cases n)
        case 0
        with None show ?thesis by simp
      next
        case (Suc j)
        with n have "j < length u" by simp
        with u(4) have "rmatch r (lastp (Some x) (take j u)) (drop j xs) g = None" by blast
        with Suc show ?thesis by simp
      qed
    qed
    from A B C D show ?thesis by blast
  qed
qed

lemma rmatch_greedy_None:
  "rmatch (Star c # r) p s g = None \<Longrightarrow> n \<le> length s \<Longrightarrow> list_all c (take n s)
   \<Longrightarrow> rmatch r (lastp p (take n s)) (drop n s) g = None"
proof (induction s arbitrary: p n)
  case Nil
  then show ?case by simp
next
  case (Cons x xs)
  from Cons.prems(1) have r0: "rmatch r p (x # xs) g = None"
    by (simp split: if_splits option.splits)
  show ?case
  proof (cases n)
    case 0
    with r0 show ?thesis by simp
  next
    case (Suc j)
    with Cons.prems(3) have cx: "c x" and cj: "list_all c (take j xs)" by simp_all
    from Cons.prems(1) cx have m: "rmatch (Star c # r) (Some x) xs g = None"
      by (simp split: option.splits)
    from Cons.prems(2) Suc have jl: "j \<le> length xs" by simp
    from Cons.IH [OF m jl cj] Suc show ?thesis by simp
  qed
qed

lemma rmatch_greedy_last:
  "rmatch (Star c # r) p s g = Some res \<Longrightarrow>
     \<exists>u s'. s = u @ s' \<and> list_all c u \<and> rmatch r (lastp p u) s' g = Some res
       \<and> (\<forall>n. length u < n \<and> n \<le> length s \<and> list_all c (take n s)
            \<longrightarrow> rmatch r (lastp p (take n s)) (drop n s) g = None)"
proof (induction s arbitrary: p)
  case Nil
  then have m: "rmatch r p [] g = Some res" by simp
  have "[] = [] @ ([]::string)" "list_all c []" by simp_all
  moreover have "rmatch r (lastp p []) [] g = Some res" using m by simp
  moreover have "\<forall>n. length ([]::string) < n \<and> n \<le> length ([]::string)
      \<and> list_all c (take n [])
      \<longrightarrow> rmatch r (lastp p (take n [])) (drop n []) g = None"
    by auto
  ultimately show ?case by blast
next
  case (Cons x xs)
  show ?case
  proof (cases "c x \<and> rmatch (Star c # r) (Some x) xs g \<noteq> None")
    case True
    then obtain m where cx: "c x" and m0: "rmatch (Star c # r) (Some x) xs g = Some m"
      by auto
    with Cons.prems have m: "rmatch (Star c # r) (Some x) xs g = Some res" by simp
    from Cons.IH [OF m] obtain u s' where
      u: "xs = u @ s'" "list_all c u" "rmatch r (lastp (Some x) u) s' g = Some res"
        "\<forall>n. length u < n \<and> n \<le> length xs \<and> list_all c (take n xs)
            \<longrightarrow> rmatch r (lastp (Some x) (take n xs)) (drop n xs) g = None"
      by blast
    have A: "x # xs = (x # u) @ s'" using u(1) by simp
    have B: "list_all c (x # u)" using u(2) cx by simp
    have C: "rmatch r (lastp p (x # u)) s' g = Some res" using u(3) by simp
    have D: "\<forall>n. length (x # u) < n \<and> n \<le> length (x # xs) \<and> list_all c (take n (x # xs))
            \<longrightarrow> rmatch r (lastp p (take n (x # xs))) (drop n (x # xs)) g = None"
    proof (intro allI impI)
      fix n assume n: "length (x # u) < n \<and> n \<le> length (x # xs)
          \<and> list_all c (take n (x # xs))"
      then obtain j where j: "n = Suc j" by (cases n) simp_all
      with n have "length u < j \<and> j \<le> length xs \<and> list_all c (take j xs)" by simp
      with u(4) have "rmatch r (lastp (Some x) (take j xs)) (drop j xs) g = None" by blast
      with j show "rmatch r (lastp p (take n (x # xs))) (drop n (x # xs)) g = None" by simp
    qed
    from A B C D show ?thesis by blast
  next
    case False
    then have F: "c x \<Longrightarrow> rmatch (Star c # r) (Some x) xs g = None" by blast
    have m: "rmatch r p (x # xs) g = Some res"
    proof (cases "c x")
      case True
      with F Cons.prems show ?thesis by simp
    next
      case False
      with Cons.prems show ?thesis by simp
    qed
    have A: "x # xs = [] @ (x # xs)" by simp
    have B: "list_all c []" by simp
    have C: "rmatch r (lastp p []) (x # xs) g = Some res" using m by simp
    have D: "\<forall>n. length ([]::string) < n \<and> n \<le> length (x # xs)
        \<and> list_all c (take n (x # xs))
        \<longrightarrow> rmatch r (lastp p (take n (x # xs))) (drop n (x # xs)) g = None"
    proof (intro allI impI)
      fix n assume n: "length ([]::string) < n \<and> n \<le> length (x # xs)
          \<and> list_all c (take n (x # xs))"
      then obtain j where j: "n = Suc j" by (cases n) simp_all
      with n have cx: "c x" and cj: "list_all c (take j xs)" and jl: "j \<le> length xs"
        by simp_all
      from F [OF cx] have "rmatch (Star c # r) (Some x) xs g = None" .
      from rmatch_greedy_None [OF this jl cj] j
      show "rmatch r (lastp p (take n (x # xs))) (drop n (x # xs)) g = None" by simp
    qed
    from A B C D show ?thesis by blast
  qed
qed

lemma rmatch_Chr:
  "rmatch (Chr c # r) p s g = Some res \<Longrightarrow> \<exists>s'. s = c # s' \<and> rmatch r (Some c) s' g = Some res"
  by (cases s) (auto simp: Chr_def split: if_splits)

lemma rmatch_lit:
  "rmatch (lit l @ r) p s g = Some res \<Longrightarrow> \<exists>s'. s = l @ s' \<and> rmatch r (lastp p l) s' g = Some res"
proof (induction l arbitrary: p s)
  case Nil
  then show ?case by (simp add: lit_def)
next
  case (Cons c l)
  from Cons.prems have "rmatch (Chr c # lit l @ r) p s g = Some res" by (simp add: lit_def)
  from rmatch_Chr [OF this] obtain s1 where s1: "s = c # s1"
    "rmatch (lit l @ r) (Some c) s1 g = Some res"
    by blast
  from Cons.IH [OF s1(2)] obtain s' where "s1 = l @ s'"
    "rmatch r (lastp (Some c) l) s' g = Some res"
    by blast
  with s1(1) show ?case by simp
qed

section \<open>Properties of the field parser\<close>

lemma is_word_d: "is_word CHR ''d''"
  by (simp add: is_word_def less_eq_char_def)

lemma default_match_iff:
  "rmatch defaultRegex p st g \<noteq> None
   \<longleftrightarrow> (\<not> word_before p
        \<and> (\<exists>ws post. st = ''default'' @ ws @ CHR ''='' # post \<and> list_all is_space ws))"
proof
  let ?r = "lit ''default'' @ [Star is_space, Chr CHR ''='']"
  have gf: "GOpen \<notin> set ?r" "GClose \<notin> set ?r"
    by (simp_all add: lit_def Chr_def)
  assume "rmatch defaultRegex p st g \<noteq> None"
  then obtain e go gc where wb: "word_before p \<noteq> word_after st"
    and m: "rmatch ?r p st g = Some (e, go, gc)"
    by (auto simp: defaultRegex_def split: if_splits)
  from rmatch_nogroup [OF gf m] obtain w where w: "st = w @ e" "accepts ?r w"
    by blast
  from w(2) obtain ws where ws: "w = ''default'' @ ws @ [CHR ''='']" "list_all is_space ws"
    unfolding accepts_lit by (auto simp: accepts_Chr)
  from w(1) ws(1) have st: "st = ''default'' @ ws @ CHR ''='' # e" by simp
  then have "word_after st" using is_word_d by simp
  with wb st ws(2) show "\<not> word_before p
      \<and> (\<exists>ws post. st = ''default'' @ ws @ CHR ''='' # post \<and> list_all is_space ws)"
    by blast
next
  let ?r = "lit ''default'' @ [Star is_space, Chr CHR ''='']"
  have nb: "WordB \<notin> set ?r"
    by (simp add: lit_def Chr_def)
  assume "\<not> word_before p
      \<and> (\<exists>ws post. st = ''default'' @ ws @ CHR ''='' # post \<and> list_all is_space ws)"
  then obtain ws post where p: "\<not> word_before p"
    and st: "st = (''default'' @ ws @ [CHR ''='']) @ post" and ws: "list_all is_space ws"
    by auto
  have "accepts ?r (''default'' @ ws @ [CHR ''=''])"
    unfolding accepts_lit using ws by (auto simp: accepts_Chr)
  from rmatch_complete [OF nb this, of p post g] have "rmatch ?r p st g \<noteq> None"
    unfolding st .
  moreover have "word_after st" unfolding st using is_word_d by simp
  ultimately show "rmatch defaultRegex p st g \<noteq> None"
    using p by (simp add: defaultRegex_def)
qed

text \<open>
  C5.  \<open>hasDefault\<close> is true exactly when the block text has, somewhere, the word
  \<open>default\<close> (not preceded by a word character), optional white space and \<open>=\<close>;
  what follows the \<open>=\<close> plays no part.  Otherwise it is false.
\<close>

theorem hasDefault_iff_default_token:
  "hasDefault (parseFields varName blockContent)
   \<longleftrightarrow> (\<exists>pre ws post. blockContent = pre @ ''default'' @ ws @ CHR ''='' # post
          \<and> list_all is_space ws \<and> (pre = [] \<or> \<not> is_word (last pre)))"
proof -
  have h: "hasDefault (parseFields varName blockContent)
      \<longleftrightarrow> rsearch defaultRegex None blockContent \<noteq> None"
    by (simp add: parseFields_def rx_test_def Let_def)
  have b: "\<not> word_before (lastp None pre) \<longleftrightarrow> pre = [] \<or> \<not> is_word (last pre)" for pre
    by (simp add: lastp_def)
  show ?thesis
  proof
    assume "hasDefault (parseFields varName blockContent)"
    with h obtain pre st where s: "blockContent = pre @ st"
      and m: "rmatch defaultRegex (lastp None pre) st ([], []) \<noteq> None"
      unfolding rsearch_found_iff by blast
    from m obtain ws post where "\<not> word_before (lastp None pre)"
      "st = ''default'' @ ws @ CHR ''='' # post" "list_all is_space ws"
      unfolding default_match_iff by blast
    with s b [of pre] have "blockContent = pre @ ''default'' @ ws @ CHR ''='' # post
        \<and> list_all is_space ws \<and> (pre = [] \<or> \<not> is_word (last pre))"
      by simp
    then show "\<exists>pre ws post. blockContent = pre @ ''default'' @ ws @ CHR ''='' # post
          \<and> list_all is_space ws \<and> (pre = [] \<or> \<not> is_word (last pre))"
      by blast
  next
    assume "\<exists>pre ws post. blockContent = pre @ ''default'' @ ws @ CHR ''='' # post
          \<and> list_all is_space ws \<and> (pre = [] \<or> \<not> is_word (last pre))"
    then obtain pre ws post where
      s: "blockContent = pre @ (''default'' @ ws @ CHR ''='' # post)"
      and ws: "list_all is_space ws" and p: "pre = [] \<or> \<not> is_word (last pre)"
      by auto
    from p b [of pre] have "\<not> word_before (lastp None pre)" by simp
    with ws have "rmatch defaultRegex (lastp None pre) (''default'' @ ws @ CHR ''='' # post)
        ([], []) \<noteq> None"
      unfolding default_match_iff by blast
    with s have "rsearch defaultRegex None blockContent \<noteq> None"
      unfolding rsearch_found_iff by blast
    with h show "hasDefault (parseFields varName blockContent)" by simp
  qed
qed

theorem hasDefault_iff_default_token_witness:
  "hasDefault (parseFields ''retention''
      (''{'' @ [newline] @ ''  default = null'' @ [newline] @ ''}''))
   \<and> (\<exists>pre ws post. ''{'' @ [newline] @ ''  default = null'' @ [newline] @ ''}''
          = pre @ ''default'' @ ws @ CHR ''='' # post
          \<and> list_all is_space ws \<and> (pre = [] \<or> \<not> is_word (last pre)))
   \<and> \<not> hasDefault (parseFields ''bucket_name''
      (''{'' @ [newline] @ ''  type = string'' @ [newline] @ ''}''))
   \<and> \<not> hasDefault (parseFields ''x'' ''{ my_default = 1 }'')"
proof -
  have a: "hasDefault (parseFields ''retention''
      (''{'' @ [newline] @ ''  default = null'' @ [newline] @ ''}''))"
    by (simp add: parseFields_def rx_test_def Let_def defaultRegex_def lit_def Chr_def
      is_space_def is_word_def less_eq_char_def newline_def underscore_def)
  have b: "\<not> hasDefault (parseFields ''bucket_name''
      (''{'' @ [newline] @ ''  type = string'' @ [newline] @ ''}''))"
    by (simp add: parseFields_def rx_test_def Let_def defaultRegex_def lit_def Chr_def
      is_space_def is_word_def less_eq_char_def newline_def underscore_def)
  have c: "\<not> hasDefault (parseFields ''x'' ''{ my_default = 1 }'')"
    by (simp add: parseFields_def rx_test_def Let_def defaultRegex_def lit_def Chr_def
      is_space_def is_word_def less_eq_char_def newline_def underscore_def)
  from a hasDefault_iff_default_token [of "''retention''"
      "''{'' @ [newline] @ ''  default = null'' @ [newline] @ ''}''"]
  have "\<exists>pre ws post. ''{'' @ [newline] @ ''  default = null'' @ [newline] @ ''}''
          = pre @ ''default'' @ ws @ CHR ''='' # post
          \<and> list_all is_space ws \<and> (pre = [] \<or> \<not> is_word (last pre))"
    by (rule iffD1 [rotated])
  with a b c show ?thesis by blast
qed

lemma dropWhile_all: "list_all P u \<Longrightarrow> dropWhile P (u @ s) = dropWhile P s"
  by (induction u) simp_all

lemma trim_leading: "list_all is_space u \<Longrightarrow> trim (u @ s) = trim s"
  by (simp add: trim_def dropWhile_all)

lemma trim_trailing:
  assumes "list_all is_space w"
  shows "trim (s @ w) = trim s"
proof (cases "list_all is_space s")
  case True
  then have "\<forall>x\<in>set s. is_space x" "\<forall>x\<in>set (s @ w). is_space x"
    using assms by (auto simp: list_all_iff)
  then have "dropWhile is_space s = []" "dropWhile is_space (s @ w) = []"
    unfolding dropWhile_eq_Nil_conv by blast+
  then show ?thesis by (simp only: trim_def)
next
  case False
  then obtain x where "x \<in> set s" "\<not> is_space x" by (auto simp: list_all_iff)
  then have "dropWhile is_space (s @ w) = dropWhile is_space s @ w"
    by (rule dropWhile_append1)
  moreover have "list_all is_space (rev w)" using assms by (simp add: list_all_iff)
  ultimately show ?thesis by (simp add: trim_def dropWhile_all)
qed

lemma validationRegex_parts:
  "validationRegex =
     (lit ''validation'' @ [Star is_space, Chr lbrace, LazyStar any_char] @ lit ''condition''
        @ [Star is_space, Chr CHR ''='', Star is_space])
     @ GOpen # [LazyStar any_char] @ GClose # ([Chr newline, Star is_space] @ lit ''error_message'')"
  by (simp add: validationRegex_def)

lemma validation_match_sound:
  assumes "rmatch validationRegex p st g = Some (e, go, gc)"
  shows "\<exists>ws1 mid ws2 ws3 cap ws4.
     st = ''validation'' @ ws1 @ lbrace # mid @ ''condition'' @ ws2 @ CHR ''='' # ws3 @ cap
          @ newline # ws4 @ ''error_message'' @ e
     \<and> list_all is_space ws1 \<and> list_all is_space ws2 \<and> list_all is_space ws3
     \<and> list_all is_space ws4
     \<and> go = cap @ newline # ws4 @ ''error_message'' @ e
     \<and> gc = newline # ws4 @ ''error_message'' @ e"
proof -
  let ?r1 = "lit ''validation'' @ [Star is_space, Chr lbrace, LazyStar any_char]
      @ lit ''condition'' @ [Star is_space, Chr CHR ''='', Star is_space]"
  let ?r2 = "[LazyStar any_char]"
  let ?r3 = "[Chr newline, Star is_space] @ lit ''error_message''"
  have gf: "GOpen \<notin> set ?r1" "GClose \<notin> set ?r1" "GOpen \<notin> set ?r2" "GClose \<notin> set ?r2"
    "GOpen \<notin> set ?r3" "GClose \<notin> set ?r3"
    by (simp_all add: lit_def Chr_def)
  from assms have "rmatch (?r1 @ GOpen # ?r2 @ GClose # ?r3) p st g = Some (e, go, gc)"
    by (simp only: validationRegex_parts)
  from rmatch_group [OF gf this] obtain w1 w2 w3 where
    w: "st = w1 @ w2 @ w3 @ e" "accepts ?r1 w1" "accepts ?r2 w2" "accepts ?r3 w3"
      "go = w2 @ w3 @ e" "gc = w3 @ e"
    by blast
  from w(2) obtain a where a: "w1 = ''validation'' @ a"
    "accepts ([Star is_space, Chr lbrace, LazyStar any_char] @ lit ''condition''
        @ [Star is_space, Chr CHR ''='', Star is_space]) a"
    unfolding accepts_lit by blast
  from a(2) obtain ws1 b where b: "a = ws1 @ b" "list_all is_space ws1"
    "accepts (Chr lbrace # LazyStar any_char # lit ''condition''
        @ [Star is_space, Chr CHR ''='', Star is_space]) b"
    by auto
  from b(3) obtain c where c: "b = lbrace # c"
    "accepts (LazyStar any_char # lit ''condition''
        @ [Star is_space, Chr CHR ''='', Star is_space]) c"
    unfolding accepts_Chr by blast
  from c(2) obtain mid d where d: "c = mid @ d"
    "accepts (lit ''condition'' @ [Star is_space, Chr CHR ''='', Star is_space]) d"
    by auto
  from d(2) obtain f where f: "d = ''condition'' @ f"
    "accepts [Star is_space, Chr CHR ''='', Star is_space] f"
    unfolding accepts_lit by blast
  from f(2) obtain ws2 h where h: "f = ws2 @ h" "list_all is_space ws2"
    "accepts [Chr CHR ''='', Star is_space] h"
    by auto
  from h(3) obtain ws3 where ws3: "h = CHR ''='' # ws3" "list_all is_space ws3"
    unfolding accepts_Chr by auto
  from w(4) obtain k where k: "w3 = newline # k"
    "accepts (Star is_space # lit ''error_message'' @ []) k"
    by (auto simp: accepts_Chr)
  from k(2) obtain ws4 l where l: "k = ws4 @ l" "list_all is_space ws4"
    "accepts (lit ''error_message'' @ []) l"
    by auto
  from l(3) have l': "l = ''error_message''"
    unfolding accepts_lit by simp
  have w1: "w1 = ''validation'' @ ws1 @ lbrace # mid @ ''condition'' @ ws2 @ CHR ''='' # ws3"
    using a(1) b(1) c(1) d(1) f(1) h(1) ws3(1) by simp
  have w3: "w3 = newline # ws4 @ ''error_message''"
    using k(1) l(1) l' by simp
  have "st = ''validation'' @ ws1 @ lbrace # mid @ ''condition'' @ ws2 @ CHR ''='' # ws3 @ w2
          @ newline # ws4 @ ''error_message'' @ e
     \<and> list_all is_space ws1 \<and> list_all is_space ws2 \<and> list_all is_space ws3
     \<and> list_all is_space ws4
     \<and> go = w2 @ newline # ws4 @ ''error_message'' @ e
     \<and> gc = newline # ws4 @ ''error_message'' @ e"
    using w(1,5,6) w1 w3 b(2) h(2) ws3(2) l(2) by simp
  then show ?thesis by blast
qed
lemma accepts_litI: "accepts r v \<Longrightarrow> accepts (lit l @ r) (l @ v)"
  unfolding accepts_lit by blast

lemma accepts_ChrI: "accepts r v \<Longrightarrow> accepts (Chr c # r) (c # v)"
  unfolding accepts_Chr by blast

lemma list_all_any_char: "list_all any_char x"
  by (simp add: list_all_iff any_char_def)

lemma accepts_GOpenI: "accepts r w \<Longrightarrow> accepts (GOpen # r) w"
  by simp

lemma accepts_GCloseI: "accepts r w \<Longrightarrow> accepts (GClose # r) w"
  by simp

lemma accepts_lit_self: "accepts (lit l) l"
  using accepts_litI [of "[]" "[]" l] by simp

lemma validation_match_complete:
  assumes "list_all is_space ws1" "list_all is_space ws2" "list_all is_space ws4"
  shows "rmatch validationRegex p
      (''validation'' @ ws1 @ lbrace # mid @ ''condition'' @ ws2 @ CHR ''='' # x
         @ newline # ws4 @ ''error_message'' @ e) g \<noteq> None"
proof -
  let ?t1 = "lit ''error_message''"
  let ?t2 = "GClose # Chr newline # Star is_space # ?t1"
  let ?t3 = "Star is_space # GOpen # LazyStar any_char # ?t2"
  let ?t4 = "Star is_space # Chr CHR ''='' # ?t3"
  let ?t5 = "Star is_space # Chr lbrace # LazyStar any_char # lit ''condition'' @ ?t4"
  have e1: "accepts (Star is_space # ?t1) (ws4 @ ''error_message'')"
    by (rule accepts_StarI [OF assms(3) accepts_lit_self])
  have e2: "accepts ?t2 (newline # ws4 @ ''error_message'')"
    by (rule accepts_GCloseI [OF accepts_ChrI [OF e1]])
  have e3: "accepts (GOpen # LazyStar any_char # ?t2) (x @ newline # ws4 @ ''error_message'')"
    by (rule accepts_GOpenI [OF accepts_LazyStarI [OF list_all_any_char e2]])
  have "list_all is_space []" by simp
  from accepts_StarI [OF this e3]
  have e4: "accepts ?t3 (x @ newline # ws4 @ ''error_message'')"
    by (simp only: append_Nil)
  have e5: "accepts ?t4 (ws2 @ CHR ''='' # x @ newline # ws4 @ ''error_message'')"
    by (rule accepts_StarI [OF assms(2) accepts_ChrI [OF e4]])
  have e6: "accepts (LazyStar any_char # lit ''condition'' @ ?t4)
      (mid @ ''condition'' @ ws2 @ CHR ''='' # x @ newline # ws4 @ ''error_message'')"
    by (rule accepts_LazyStarI [OF list_all_any_char accepts_litI [OF e5]])
  have e7: "accepts ?t5
      (ws1 @ lbrace # mid @ ''condition'' @ ws2 @ CHR ''='' # x @ newline # ws4
         @ ''error_message'')"
    by (rule accepts_StarI [OF assms(1) accepts_ChrI [OF e6]])
  have r: "validationRegex = lit ''validation'' @ ?t5"
    by (simp add: validationRegex_def)
  have e8: "accepts validationRegex
      (''validation'' @ ws1 @ lbrace # mid @ ''condition'' @ ws2 @ CHR ''='' # x @ newline
         # ws4 @ ''error_message'')"
    unfolding r by (rule accepts_litI [OF e7])
  have nb: "WordB \<notin> set validationRegex"
    by (simp add: validationRegex_def lit_def Chr_def)
  from rmatch_complete [OF nb e8, of p e g] show ?thesis by simp
qed

lemma fullBlock_match_sound:
  assumes "rmatch fullBlockRegex p st g = Some (e, go, gc)"
  shows "\<exists>ws mid ws'. st = (''validation'' @ ws @ lbrace # mid @ newline # ws' @ [rbrace]) @ e
     \<and> list_all is_space ws \<and> list_all is_space ws'"
proof -
  have gf: "GOpen \<notin> set fullBlockRegex" "GClose \<notin> set fullBlockRegex"
    by (simp_all add: fullBlockRegex_def lit_def Chr_def)
  from rmatch_nogroup [OF gf assms] obtain w where w: "st = w @ e" "accepts fullBlockRegex w"
    by blast
  from w(2) obtain a where a: "w = ''validation'' @ a"
    "accepts [Star is_space, Chr lbrace, LazyStar any_char, Chr newline, Star is_space,
       Chr rbrace] a"
    unfolding fullBlockRegex_def accepts_lit by blast
  from a(2) obtain ws b where b: "a = ws @ b" "list_all is_space ws"
    "accepts [Chr lbrace, LazyStar any_char, Chr newline, Star is_space, Chr rbrace] b"
    by auto
  from b(3) obtain c where c: "b = lbrace # c"
    "accepts [LazyStar any_char, Chr newline, Star is_space, Chr rbrace] c"
    unfolding accepts_Chr by blast
  from c(2) obtain mid d where d: "c = mid @ d"
    "accepts [Chr newline, Star is_space, Chr rbrace] d"
    by auto
  from d(2) obtain f where f: "d = newline # f" "accepts [Star is_space, Chr rbrace] f"
    unfolding accepts_Chr by blast
  from f(2) obtain ws' where ws': "f = ws' @ [rbrace]" "list_all is_space ws'"
    by (auto simp: accepts_Chr)
  have "st = (''validation'' @ ws @ lbrace # mid @ newline # ws' @ [rbrace]) @ e
     \<and> list_all is_space ws \<and> list_all is_space ws'"
    using w(1) a(1) b(1,2) c(1) d(1) f(1) ws' by simp
  then show ?thesis by blast
qed

lemma match_text_eq:
  "mstart m = w @ mend m \<Longrightarrow> match_text m = w"
  by (simp add: match_text_def)

lemma validation_parsed:
  "validation (parseFields varName blockContent) =
     (case rsearch validationRegex None blockContent of
        None \<Rightarrow> None
      | Some m \<Rightarrow> Some \<lparr>condition = trim (group1 m),
            fullBlock = (case rsearch fullBlockRegex None blockContent of
                           Some f \<Rightarrow> match_text f | None \<Rightarrow> [])\<rparr>)"
  by (simp add: parseFields_def Let_def rx_first_def split: option.splits)

lemma validation_found_iff:
  "validation (parseFields varName blockContent) \<noteq> None
   \<longleftrightarrow> (\<exists>pre ws1 mid ws2 between ws4 post.
         blockContent = pre @ ''validation'' @ ws1 @ lbrace # mid @ ''condition'' @ ws2
           @ CHR ''='' # between @ ''error_message'' @ post
         \<and> list_all is_space ws1 \<and> list_all is_space ws2 \<and> list_all is_space ws4
         \<and> suffix (newline # ws4) between)"
proof
  assume "validation (parseFields varName blockContent) \<noteq> None"
  then obtain m where "rsearch validationRegex None blockContent = Some m"
    unfolding validation_parsed by (auto split: option.splits)
  from rsearch_Some [OF this] obtain pre where pre: "blockContent = pre @ mstart m"
    "rmatch validationRegex (lastp None pre) (mstart m) ([], []) = Some (mend m, gopen m, gclose m)"
    by blast
  from validation_match_sound [OF pre(2)] obtain ws1 mid ws2 ws3 cap ws4 where
    d: "mstart m = ''validation'' @ ws1 @ lbrace # mid @ ''condition'' @ ws2 @ CHR ''='' # ws3
          @ cap @ newline # ws4 @ ''error_message'' @ mend m"
      "list_all is_space ws1" "list_all is_space ws2" "list_all is_space ws4"
    by blast
  have "blockContent = pre @ ''validation'' @ ws1 @ lbrace # mid @ ''condition'' @ ws2
           @ CHR ''='' # (ws3 @ cap @ newline # ws4) @ ''error_message'' @ mend m
         \<and> list_all is_space ws1 \<and> list_all is_space ws2 \<and> list_all is_space ws4
         \<and> suffix (newline # ws4) (ws3 @ cap @ newline # ws4)"
    using pre(1) d by (simp add: suffix_def)
  then show "\<exists>pre ws1 mid ws2 between ws4 post.
         blockContent = pre @ ''validation'' @ ws1 @ lbrace # mid @ ''condition'' @ ws2
           @ CHR ''='' # between @ ''error_message'' @ post
         \<and> list_all is_space ws1 \<and> list_all is_space ws2 \<and> list_all is_space ws4
         \<and> suffix (newline # ws4) between"
    by blast
next
  assume "\<exists>pre ws1 mid ws2 between ws4 post.
         blockContent = pre @ ''validation'' @ ws1 @ lbrace # mid @ ''condition'' @ ws2
           @ CHR ''='' # between @ ''error_message'' @ post
         \<and> list_all is_space ws1 \<and> list_all is_space ws2 \<and> list_all is_space ws4
         \<and> suffix (newline # ws4) between"
  then obtain pre ws1 mid ws2 between ws4 post x where
    b: "blockContent = pre @ (''validation'' @ ws1 @ lbrace # mid @ ''condition'' @ ws2
           @ CHR ''='' # x @ newline # ws4 @ ''error_message'' @ post)"
    and ws: "list_all is_space ws1" "list_all is_space ws2" "list_all is_space ws4"
    by (auto simp: suffix_def)
  from validation_match_complete [OF ws, of "lastp None pre" mid x post "([], [])"] b
  have "rsearch validationRegex None blockContent \<noteq> None"
    unfolding rsearch_found_iff by blast
  then show "validation (parseFields varName blockContent) \<noteq> None"
    unfolding validation_parsed by (auto split: option.splits)
qed
lemma nb_lit: "WordB \<notin> set (lit l)"
  by (auto simp: lit_def Chr_def)

lemma nb_error_line: "WordB \<notin> set rx_error_line"
  by (simp add: nb_lit Chr_def)

lemma nb_capture: "WordB \<notin> set rx_capture"
  by (simp add: nb_lit Chr_def)

lemma nb_condition: "WordB \<notin> set rx_condition"
  by (simp add: nb_lit Chr_def)

lemma accepts_error_line:
  "accepts rx_error_line w
   \<longleftrightarrow> (\<exists>ws. w = newline # ws @ ''error_message'' \<and> list_all is_space ws)"
proof
  assume "accepts rx_error_line w"
  then obtain k where k: "w = newline # k" "accepts (Star is_space # lit ''error_message'' @ []) k"
    unfolding accepts_Chr by auto
  from k(2) obtain ws l where l: "k = ws @ l" "list_all is_space ws"
    "accepts (lit ''error_message'' @ []) l"
    by auto
  from l(3) have "l = ''error_message''" unfolding accepts_lit by simp
  with k(1) l(1,2) have "w = newline # ws @ ''error_message'' \<and> list_all is_space ws"
    by simp
  then show "\<exists>ws. w = newline # ws @ ''error_message'' \<and> list_all is_space ws" by blast
next
  assume "\<exists>ws. w = newline # ws @ ''error_message'' \<and> list_all is_space ws"
  then obtain ws where w: "w = newline # ws @ ''error_message''" and ws: "list_all is_space ws"
    by blast
  show "accepts rx_error_line w"
    unfolding w by (rule accepts_ChrI [OF accepts_StarI [OF ws accepts_lit_self]])
qed

lemma em_line_accepts:
  "em_line s \<longleftrightarrow> (\<exists>w e. s = w @ e \<and> accepts rx_error_line w)"
proof
  assume "em_line s"
  then obtain ws rest where s: "s = newline # ws @ ''error_message'' @ rest"
    and ws: "list_all is_space ws"
    unfolding em_line_def by blast
  have "accepts rx_error_line (newline # ws @ ''error_message'')"
    unfolding accepts_error_line using ws by blast
  moreover have "s = (newline # ws @ ''error_message'') @ rest" using s by simp
  ultimately show "\<exists>w e. s = w @ e \<and> accepts rx_error_line w" by blast
next
  assume "\<exists>w e. s = w @ e \<and> accepts rx_error_line w"
  then obtain w e where s: "s = w @ e" and "accepts rx_error_line w" by blast
  then obtain ws where w: "w = newline # ws @ ''error_message''" and ws: "list_all is_space ws"
    unfolding accepts_error_line by blast
  have "s = newline # ws @ ''error_message'' @ e" using s w by simp
  with ws show "em_line s" unfolding em_line_def by blast
qed

lemma em_line_match:
  "rmatch rx_error_line p s g \<noteq> None \<longleftrightarrow> em_line s"
  unfolding em_line_accepts by (rule rmatch_iff [OF nb_error_line])

lemma em_line_match_close:
  "rmatch (GClose # rx_error_line) p s g \<noteq> None \<longleftrightarrow> em_line s"
proof -
  obtain go gc where g: "g = (go, gc)" by (cases g)
  have "rmatch (GClose # rx_error_line) p s g = rmatch rx_error_line p s (go, s)"
    unfolding g by simp
  then show ?thesis by (simp only: em_line_match)
qed

lemma capture_match:
  "rmatch rx_capture p s g \<noteq> None \<longleftrightarrow> (\<exists>k. em_line (drop k s))"
proof
  assume "rmatch rx_capture p s g \<noteq> None"
  then obtain res where "rmatch rx_capture p s g = Some res" by auto
  from rmatch_sound [OF this] obtain w where w: "s = w @ fst res" "accepts rx_capture w"
    by blast
  from w(2) have "accepts (LazyStar any_char # GClose # rx_error_line) w" by simp
  then obtain x t where t: "w = x @ t" "accepts (GClose # rx_error_line) t" by auto
  from t(2) have "accepts rx_error_line t" by simp
  then have "em_line (t @ fst res)" unfolding em_line_accepts by blast
  moreover have "drop (length x) s = t @ fst res" using w(1) t(1) by simp
  ultimately have "em_line (drop (length x) s)" by simp
  then show "\<exists>k. em_line (drop k s)" by blast
next
  assume "\<exists>k. em_line (drop k s)"
  then obtain k where "em_line (drop k s)" by blast
  then obtain w e where d: "drop k s = w @ e" and a: "accepts rx_error_line w"
    unfolding em_line_accepts by blast
  have "accepts (GClose # rx_error_line) w" using a by simp
  from accepts_LazyStarI [OF list_all_any_char this]
  have "accepts (LazyStar any_char # GClose # rx_error_line) (take k s @ w)" .
  then have a2: "accepts rx_capture (take k s @ w)" by simp
  have "s = (take k s @ w) @ e" using d append_take_drop_id [of k s] by simp
  with rmatch_complete [OF nb_capture a2, of p e g] show "rmatch rx_capture p s g \<noteq> None"
    by simp
qed

lemma condition_match:
  "rmatch rx_condition p s g \<noteq> None \<longleftrightarrow> condition_at s"
proof
  assume "rmatch rx_condition p s g \<noteq> None"
  then obtain res where "rmatch rx_condition p s g = Some res" by auto
  from rmatch_lit [OF this] obtain s1 where s1: "s = ''condition'' @ s1"
    "rmatch (Star is_space # Chr CHR ''='' # Star is_space # rx_capture)
       (lastp p ''condition'') s1 g = Some res"
    by blast
  from rmatch_greedy_last [OF s1(2)] obtain ws s2 where s2: "s1 = ws @ s2"
    "list_all is_space ws"
    "rmatch (Chr CHR ''='' # Star is_space # rx_capture)
       (lastp (lastp p ''condition'') ws) s2 g = Some res"
    by blast
  from rmatch_Chr [OF s2(3)] obtain s3 where s3: "s2 = CHR ''='' # s3"
    "rmatch (Star is_space # rx_capture) (Some CHR ''='') s3 g = Some res"
    by blast
  from rmatch_greedy_last [OF s3(2)] obtain u s4 where s4: "s3 = u @ s4"
    "rmatch rx_capture (lastp (Some CHR ''='') u) s4 g = Some res"
    by blast
  from s4(2) have "rmatch rx_capture (lastp (Some CHR ''='') u) s4 g \<noteq> None" by simp
  then obtain k where k: "em_line (drop k s4)" unfolding capture_match by blast
  have "s = ''condition'' @ ws @ CHR ''='' # (u @ take k s4) @ drop k s4"
    using s1(1) s2(1) s3(1) s4(1) by simp
  with s2(2) k show "condition_at s" unfolding condition_at_def by blast
next
  assume "condition_at s"
  then obtain ws x t where s: "s = ''condition'' @ ws @ CHR ''='' # x @ t"
    and ws: "list_all is_space ws" and t: "em_line t"
    unfolding condition_at_def by blast
  from t obtain w e where w: "t = w @ e" "accepts rx_error_line w"
    unfolding em_line_accepts by blast
  have "accepts (GClose # rx_error_line) w" using w(2) by simp
  from accepts_LazyStarI [OF list_all_any_char this]
  have "accepts (LazyStar any_char # GClose # rx_error_line) (x @ w)" .
  then have a1: "accepts rx_capture (x @ w)" by simp
  have "list_all is_space []" by simp
  from accepts_StarI [OF this a1]
  have a2: "accepts (Star is_space # rx_capture) (x @ w)" by (simp only: append_Nil)
  have a3: "accepts (Star is_space # Chr CHR ''='' # Star is_space # rx_capture)
      (ws @ CHR ''='' # x @ w)"
    by (rule accepts_StarI [OF ws accepts_ChrI [OF a2]])
  have a4: "accepts rx_condition (''condition'' @ ws @ CHR ''='' # x @ w)"
    by (rule accepts_litI [OF a3])
  have "s = (''condition'' @ ws @ CHR ''='' # x @ w) @ e" using s w(1) by simp
  with rmatch_complete [OF nb_condition a4, of p e g] show "rmatch rx_condition p s g \<noteq> None"
    by simp
qed

lemma validation_match:
  "rmatch validationRegex p s g \<noteq> None \<longleftrightarrow> validation_at s"
proof
  assume "rmatch validationRegex p s g \<noteq> None"
  then obtain e go gc where "rmatch validationRegex p s g = Some (e, go, gc)" by auto
  from validation_match_sound [OF this] obtain ws1 mid ws2 ws3 cap ws4 where
    d: "s = ''validation'' @ ws1 @ lbrace # mid @ ''condition'' @ ws2 @ CHR ''='' # ws3 @ cap
          @ newline # ws4 @ ''error_message'' @ e"
      "list_all is_space ws1" "list_all is_space ws2" "list_all is_space ws4"
    by blast
  have "em_line (newline # ws4 @ ''error_message'' @ e)"
    unfolding em_line_def using d(4) by blast
  moreover have "''condition'' @ ws2 @ CHR ''='' # ws3 @ cap @ newline # ws4 @ ''error_message'' @ e
      = ''condition'' @ ws2 @ CHR ''='' # (ws3 @ cap) @ newline # ws4 @ ''error_message'' @ e"
    by simp
  ultimately have "condition_at (''condition'' @ ws2 @ CHR ''='' # ws3 @ cap @ newline # ws4
      @ ''error_message'' @ e)"
    unfolding condition_at_def using d(3) by blast
  with d(1,2) show "validation_at s" unfolding validation_at_def by blast
next
  assume "validation_at s"
  then obtain ws mid c where s: "s = ''validation'' @ ws @ lbrace # mid @ c"
    and ws: "list_all is_space ws" and c: "condition_at c"
    unfolding validation_at_def by blast
  from c obtain ws2 x t where c': "c = ''condition'' @ ws2 @ CHR ''='' # x @ t"
    and ws2: "list_all is_space ws2" and t: "em_line t"
    unfolding condition_at_def by blast
  from t obtain ws4 rest where t': "t = newline # ws4 @ ''error_message'' @ rest"
    and ws4: "list_all is_space ws4"
    unfolding em_line_def by blast
  have "s = ''validation'' @ ws @ lbrace # mid @ ''condition'' @ ws2 @ CHR ''='' # x
         @ newline # ws4 @ ''error_message'' @ rest"
    using s c' t' by simp
  with validation_match_complete [OF ws ws2 ws4, of p mid x rest g]
  show "rmatch validationRegex p s g \<noteq> None" by simp
qed


lemma em_line_Nil: "\<not> em_line []"
  by (simp add: em_line_def)

lemma validation_match_pinned:
  assumes "rmatch validationRegex p st g = Some (e, go, gc)"
  shows "\<exists>ws1 mid ws2 ws3 cap tail.
     st = ''validation'' @ ws1 @ lbrace # mid @ ''condition'' @ ws2 @ CHR ''='' # ws3 @ cap @ tail
     \<and> list_all is_space ws1 \<and> list_all is_space ws2 \<and> list_all is_space ws3
     \<and> em_line tail \<and> go = cap @ tail \<and> gc = tail
     \<and> (\<forall>k<length mid.
           \<not> condition_at (drop k (mid @ ''condition'' @ ws2 @ CHR ''='' # ws3 @ cap @ tail)))
     \<and> (\<forall>n. length ws3 < n \<and> list_all is_space (take n (ws3 @ cap @ tail))
           \<longrightarrow> (\<forall>k. \<not> em_line (drop k (drop n (ws3 @ cap @ tail)))))
     \<and> (\<forall>k<length cap. \<not> em_line (drop k (cap @ tail)))"
proof -
  obtain g1 g2 where g: "g = (g1, g2)" by (cases g)
  have R: "validationRegex
      = lit ''validation'' @ Star is_space # Chr lbrace # LazyStar any_char # rx_condition"
    by (simp add: validationRegex_def)
  from assms have "rmatch (lit ''validation'' @ Star is_space # Chr lbrace # LazyStar any_char
      # rx_condition) p st g = Some (e, go, gc)"
    unfolding R .
  from rmatch_lit [OF this] obtain s1 where s1: "st = ''validation'' @ s1"
    "rmatch (Star is_space # Chr lbrace # LazyStar any_char # rx_condition)
       (lastp p ''validation'') s1 g = Some (e, go, gc)"
    by blast
  from rmatch_greedy_last [OF s1(2)] obtain ws1 s2 where s2: "s1 = ws1 @ s2"
    "list_all is_space ws1"
    "rmatch (Chr lbrace # LazyStar any_char # rx_condition)
       (lastp (lastp p ''validation'') ws1) s2 g = Some (e, go, gc)"
    by blast
  from rmatch_Chr [OF s2(3)] obtain s3 where s3: "s2 = lbrace # s3"
    "rmatch (LazyStar any_char # rx_condition) (Some lbrace) s3 g = Some (e, go, gc)"
    by blast
  from rmatch_lazy_first [OF s3(2)] obtain mid s4 where s4: "s3 = mid @ s4"
    "rmatch rx_condition (lastp (Some lbrace) mid) s4 g = Some (e, go, gc)"
    "\<forall>n<length mid. rmatch rx_condition (lastp (Some lbrace) (take n mid)) (drop n s3) g = None"
    by blast
  from rmatch_lit [OF s4(2)] obtain s5 where s5: "s4 = ''condition'' @ s5"
    "rmatch (Star is_space # Chr CHR ''='' # Star is_space # rx_capture)
       (lastp (lastp (Some lbrace) mid) ''condition'') s5 g = Some (e, go, gc)"
    by blast
  from rmatch_greedy_last [OF s5(2)] obtain ws2 s6 where s6: "s5 = ws2 @ s6"
    "list_all is_space ws2"
    "rmatch (Chr CHR ''='' # Star is_space # rx_capture)
       (lastp (lastp (lastp (Some lbrace) mid) ''condition'') ws2) s6 g = Some (e, go, gc)"
    by blast
  from rmatch_Chr [OF s6(3)] obtain s7 where s7: "s6 = CHR ''='' # s7"
    "rmatch (Star is_space # rx_capture) (Some CHR ''='') s7 g = Some (e, go, gc)"
    by blast
  from rmatch_greedy_last [OF s7(2)] obtain ws3 s8 where s8: "s7 = ws3 @ s8"
    "list_all is_space ws3"
    "rmatch rx_capture (lastp (Some CHR ''='') ws3) s8 g = Some (e, go, gc)"
    "\<forall>n. length ws3 < n \<and> n \<le> length s7 \<and> list_all is_space (take n s7)
        \<longrightarrow> rmatch rx_capture (lastp (Some CHR ''='') (take n s7)) (drop n s7) g = None"
    by blast
  from s8(3) have "rmatch (LazyStar any_char # GClose # rx_error_line)
      (lastp (Some CHR ''='') ws3) s8 (s8, g2) = Some (e, go, gc)"
    unfolding g by simp
  from rmatch_lazy_first [OF this] obtain cap s9 where s9: "s8 = cap @ s9"
    "rmatch (GClose # rx_error_line) (lastp (lastp (Some CHR ''='') ws3) cap) s9 (s8, g2)
       = Some (e, go, gc)"
    "\<forall>n<length cap. rmatch (GClose # rx_error_line)
        (lastp (lastp (Some CHR ''='') ws3) (take n cap)) (drop n s8) (s8, g2) = None"
    by blast
  from s9(2) have m9: "rmatch rx_error_line (lastp (lastp (Some CHR ''='') ws3) cap) s9 (s8, s9)
      = Some (e, go, gc)"
    by simp
  have gf: "GOpen \<notin> set rx_error_line" "GClose \<notin> set rx_error_line"
    by (simp_all add: lit_def Chr_def)
  from rmatch_nogroup [OF gf m9] have gg: "go = s8" "gc = s9" by auto
  from m9 have "rmatch rx_error_line (lastp (lastp (Some CHR ''='') ws3) cap) s9 (s8, s9) \<noteq> None"
    by simp
  then have em: "em_line s9" by (simp only: em_line_match)
  have e3: "s3 = mid @ ''condition'' @ ws2 @ CHR ''='' # ws3 @ cap @ s9"
    using s4(1) s5(1) s6(1) s7(1) s8(1) s9(1) by simp
  have e7: "s7 = ws3 @ cap @ s9" using s8(1) s9(1) by simp
  have A: "st = ''validation'' @ ws1 @ lbrace # mid @ ''condition'' @ ws2 @ CHR ''='' # ws3
      @ cap @ s9"
    using s1(1) s2(1) s3(1) e3 by simp
  have M1: "\<forall>k<length mid. \<not> condition_at (drop k s3)"
  proof (intro allI impI)
    fix k assume "k < length mid"
    with s4(3) have "rmatch rx_condition (lastp (Some lbrace) (take k mid)) (drop k s3) g = None"
      by blast
    then show "\<not> condition_at (drop k s3)"
      using condition_match [of "lastp (Some lbrace) (take k mid)" "drop k s3" g] by simp
  qed
  have M2: "\<forall>n. length ws3 < n \<and> list_all is_space (take n s7)
      \<longrightarrow> (\<forall>k. \<not> em_line (drop k (drop n s7)))"
  proof (intro allI impI)
    fix n k assume n: "length ws3 < n \<and> list_all is_space (take n s7)"
    show "\<not> em_line (drop k (drop n s7))"
    proof (cases "n \<le> length s7")
      case True
      with n s8(4) have "rmatch rx_capture (lastp (Some CHR ''='') (take n s7)) (drop n s7) g
          = None"
        by blast
      then have "\<not> (\<exists>k. em_line (drop k (drop n s7)))"
        using capture_match [of "lastp (Some CHR ''='') (take n s7)" "drop n s7" g] by simp
      then show ?thesis by blast
    next
      case False
      then show ?thesis by (simp add: em_line_Nil)
    qed
  qed
  have M3: "\<forall>k<length cap. \<not> em_line (drop k s8)"
  proof (intro allI impI)
    fix k assume "k < length cap"
    with s9(3) have "rmatch (GClose # rx_error_line)
        (lastp (lastp (Some CHR ''='') ws3) (take k cap)) (drop k s8) (s8, g2) = None"
      by blast
    then show "\<not> em_line (drop k s8)"
      using em_line_match_close [of "lastp (lastp (Some CHR ''='') ws3) (take k cap)"
          "drop k s8" "(s8, g2)"]
      by simp
  qed
  have "st = ''validation'' @ ws1 @ lbrace # mid @ ''condition'' @ ws2 @ CHR ''='' # ws3 @ cap @ s9
     \<and> list_all is_space ws1 \<and> list_all is_space ws2 \<and> list_all is_space ws3
     \<and> em_line s9 \<and> go = cap @ s9 \<and> gc = s9
     \<and> (\<forall>k<length mid.
           \<not> condition_at (drop k (mid @ ''condition'' @ ws2 @ CHR ''='' # ws3 @ cap @ s9)))
     \<and> (\<forall>n. length ws3 < n \<and> list_all is_space (take n (ws3 @ cap @ s9))
           \<longrightarrow> (\<forall>k. \<not> em_line (drop k (drop n (ws3 @ cap @ s9)))))
     \<and> (\<forall>k<length cap. \<not> em_line (drop k (cap @ s9)))"
    using A s2(2) s6(2) s8(2) em gg M1 [unfolded e3] M2 [unfolded e7] M3 [unfolded s9(1)] s9(1)
    by blast
  then show ?thesis by blast
qed

lemma accepts_brace_line:
  "accepts rx_brace_line w \<longleftrightarrow> (\<exists>ws. w = newline # ws @ [rbrace] \<and> list_all is_space ws)"
proof
  assume "accepts rx_brace_line w"
  then obtain k where k: "w = newline # k" "accepts [Star is_space, Chr rbrace] k"
    unfolding accepts_Chr by auto
  from k(2) obtain ws where "k = ws @ [rbrace]" "list_all is_space ws"
    by (auto simp: accepts_Chr)
  with k(1) have "w = newline # ws @ [rbrace] \<and> list_all is_space ws" by simp
  then show "\<exists>ws. w = newline # ws @ [rbrace] \<and> list_all is_space ws" by blast
next
  assume "\<exists>ws. w = newline # ws @ [rbrace] \<and> list_all is_space ws"
  then obtain ws where w: "w = newline # ws @ [rbrace]" and ws: "list_all is_space ws"
    by blast
  have "accepts [Chr rbrace] [rbrace]" by (simp add: Chr_def)
  from accepts_ChrI [OF accepts_StarI [OF ws this]] show "accepts rx_brace_line w"
    unfolding w .
qed

lemma nb_brace_line: "WordB \<notin> set rx_brace_line"
  by (simp add: Chr_def)

lemma brace_line_accepts:
  "brace_line s \<longleftrightarrow> (\<exists>w e. s = w @ e \<and> accepts rx_brace_line w)"
proof
  assume "brace_line s"
  then obtain ws rest where s: "s = newline # ws @ rbrace # rest"
    and ws: "list_all is_space ws"
    unfolding brace_line_def by blast
  have "accepts rx_brace_line (newline # ws @ [rbrace])"
    unfolding accepts_brace_line using ws by blast
  moreover have "s = (newline # ws @ [rbrace]) @ rest" using s by simp
  ultimately show "\<exists>w e. s = w @ e \<and> accepts rx_brace_line w" by blast
next
  assume "\<exists>w e. s = w @ e \<and> accepts rx_brace_line w"
  then obtain w e where s: "s = w @ e" and "accepts rx_brace_line w" by blast
  then obtain ws where w: "w = newline # ws @ [rbrace]" and ws: "list_all is_space ws"
    unfolding accepts_brace_line by blast
  have "s = newline # ws @ rbrace # e" using s w by simp
  with ws show "brace_line s" unfolding brace_line_def by blast
qed

lemma brace_line_match:
  "rmatch rx_brace_line p s g \<noteq> None \<longleftrightarrow> brace_line s"
  unfolding brace_line_accepts by (rule rmatch_iff [OF nb_brace_line])

lemma fullBlock_match_pinned:
  assumes "rmatch fullBlockRegex p st g = Some (e, go, gc)"
  shows "\<exists>ws mid ws'.
     st = (''validation'' @ ws @ lbrace # mid @ newline # ws' @ [rbrace]) @ e
     \<and> list_all is_space ws \<and> list_all is_space ws'
     \<and> (\<forall>k<length mid. \<not> brace_line (drop k (mid @ newline # ws' @ rbrace # e)))"
proof -
  have R: "fullBlockRegex
      = lit ''validation'' @ Star is_space # Chr lbrace # LazyStar any_char # rx_brace_line"
    by (simp add: fullBlockRegex_def)
  from assms have "rmatch (lit ''validation'' @ Star is_space # Chr lbrace # LazyStar any_char
      # rx_brace_line) p st g = Some (e, go, gc)"
    unfolding R .
  from rmatch_lit [OF this] obtain s1 where s1: "st = ''validation'' @ s1"
    "rmatch (Star is_space # Chr lbrace # LazyStar any_char # rx_brace_line)
       (lastp p ''validation'') s1 g = Some (e, go, gc)"
    by blast
  from rmatch_greedy_last [OF s1(2)] obtain ws s2 where s2: "s1 = ws @ s2"
    "list_all is_space ws"
    "rmatch (Chr lbrace # LazyStar any_char # rx_brace_line)
       (lastp (lastp p ''validation'') ws) s2 g = Some (e, go, gc)"
    by blast
  from rmatch_Chr [OF s2(3)] obtain s3 where s3: "s2 = lbrace # s3"
    "rmatch (LazyStar any_char # rx_brace_line) (Some lbrace) s3 g = Some (e, go, gc)"
    by blast
  from rmatch_lazy_first [OF s3(2)] obtain mid s4 where s4: "s3 = mid @ s4"
    "rmatch rx_brace_line (lastp (Some lbrace) mid) s4 g = Some (e, go, gc)"
    "\<forall>n<length mid. rmatch rx_brace_line (lastp (Some lbrace) (take n mid)) (drop n s3) g = None"
    by blast
  have gf: "GOpen \<notin> set rx_brace_line" "GClose \<notin> set rx_brace_line"
    by (simp_all add: Chr_def)
  from rmatch_nogroup [OF gf s4(2)] obtain w where w: "s4 = w @ e" "accepts rx_brace_line w"
    by blast
  from w(2) obtain ws' where ws': "w = newline # ws' @ [rbrace]" "list_all is_space ws'"
    unfolding accepts_brace_line by blast
  have e3: "s3 = mid @ newline # ws' @ rbrace # e" using s4(1) w(1) ws'(1) by simp
  have A: "st = (''validation'' @ ws @ lbrace # mid @ newline # ws' @ [rbrace]) @ e"
    using s1(1) s2(1) s3(1) e3 by simp
  have M: "\<forall>k<length mid. \<not> brace_line (drop k s3)"
  proof (intro allI impI)
    fix k assume "k < length mid"
    with s4(3) have "rmatch rx_brace_line (lastp (Some lbrace) (take k mid)) (drop k s3) g = None"
      by blast
    then show "\<not> brace_line (drop k s3)"
      using brace_line_match [of "lastp (Some lbrace) (take k mid)" "drop k s3" g] by simp
  qed
  from A s2(2) ws'(2) M [unfolded e3] show ?thesis by blast
qed

lemma block_match:
  "rmatch fullBlockRegex p s g \<noteq> None \<longleftrightarrow> block_at s"
proof
  assume "rmatch fullBlockRegex p s g \<noteq> None"
  then obtain e go gc where "rmatch fullBlockRegex p s g = Some (e, go, gc)" by auto
  from fullBlock_match_sound [OF this] obtain ws mid ws' where
    d: "s = (''validation'' @ ws @ lbrace # mid @ newline # ws' @ [rbrace]) @ e"
      "list_all is_space ws" "list_all is_space ws'"
    by blast
  have "brace_line (newline # ws' @ rbrace # e)"
    unfolding brace_line_def using d(3) by blast
  moreover have "s = ''validation'' @ ws @ lbrace # mid @ newline # ws' @ rbrace # e"
    using d(1) by simp
  ultimately show "block_at s" unfolding block_at_def using d(2) by blast
next
  assume "block_at s"
  then obtain ws mid t where s: "s = ''validation'' @ ws @ lbrace # mid @ t"
    and ws: "list_all is_space ws" and t: "brace_line t"
    unfolding block_at_def by blast
  from t obtain w e where w: "t = w @ e" "accepts rx_brace_line w"
    unfolding brace_line_accepts by blast
  have a1: "accepts (LazyStar any_char # rx_brace_line) (mid @ w)"
    by (rule accepts_LazyStarI [OF list_all_any_char w(2)])
  have a2: "accepts (Star is_space # Chr lbrace # LazyStar any_char # rx_brace_line)
      (ws @ lbrace # mid @ w)"
    by (rule accepts_StarI [OF ws accepts_ChrI [OF a1]])
  have R: "fullBlockRegex
      = lit ''validation'' @ Star is_space # Chr lbrace # LazyStar any_char # rx_brace_line"
    by (simp add: fullBlockRegex_def)
  have a3: "accepts fullBlockRegex (''validation'' @ ws @ lbrace # mid @ w)"
    unfolding R by (rule accepts_litI [OF a2])
  have nb: "WordB \<notin> set fullBlockRegex"
    by (simp add: fullBlockRegex_def lit_def Chr_def)
  have "s = (''validation'' @ ws @ lbrace # mid @ w) @ e" using s w(1) by simp
  with rmatch_complete [OF nb a3, of p e g] show "rmatch fullBlockRegex p s g \<noteq> None"
    by simp
qed


lemma block_at_Nil: "\<not> block_at []"
  by (simp add: block_at_def)

text \<open>
  The parts of a match are determined by the block text: two ways to cut the text that are
  both leftmost, lazy and greedy as above are the same.
\<close>

lemma span_unique:
  "list_all P u \<Longrightarrow> list_all P u' \<Longrightarrow> \<not> P x \<Longrightarrow> \<not> P x' \<Longrightarrow> u @ x # r = u' @ x' # r'
   \<Longrightarrow> u = u' \<and> r = r'"
proof (induction u arbitrary: u')
  case Nil
  then show ?case by (cases u') auto
next
  case (Cons a u)
  show ?case
  proof (cases u')
    case Nil
    with Cons.prems show ?thesis by auto
  next
    case (Cons y ys)
    with Cons.prems have "list_all P u" "list_all P ys" "u @ x # r = ys @ x' # r'" "a = y"
      by simp_all
    with Cons.IH [of ys] Cons.prems(3,4) Cons show ?thesis by simp
  qed
qed

lemma first_split_le:
  assumes eq: "u @ r = u' @ r'" and r: "P r"
    and min: "\<forall>k<length u'. \<not> P (drop k (u' @ r'))"
  shows "length u' \<le> length u"
proof (rule ccontr)
  assume "\<not> length u' \<le> length u"
  then have "length u < length u'" by simp
  with min have "\<not> P (drop (length u) (u' @ r'))" by blast
  moreover have "drop (length u) (u' @ r') = r" unfolding eq [symmetric] by simp
  ultimately show False using r by simp
qed

lemma first_split_unique:
  assumes eq: "u @ r = u' @ r'" and r: "P r" and r': "P r'"
    and min: "\<forall>k<length u. \<not> P (drop k (u @ r))"
    and min': "\<forall>k<length u'. \<not> P (drop k (u' @ r'))"
  shows "u = u' \<and> r = r'"
proof -
  have "length u' \<le> length u" by (rule first_split_le [OF eq r min'])
  moreover have "length u \<le> length u'" by (rule first_split_le [OF eq [symmetric] r' min])
  ultimately have "length u = length u'" by simp
  with eq show ?thesis by simp
qed

lemma greedy_split_le:
  assumes s: "s = u @ c @ t" and s': "s = u' @ c' @ t'"
    and sp': "list_all is_space u'" and em': "em_line t'"
    and max: "\<forall>n. length u < n \<and> list_all is_space (take n s)
        \<longrightarrow> (\<forall>k. \<not> em_line (drop k (drop n s)))"
  shows "length u' \<le> length u"
proof (rule ccontr)
  assume "\<not> length u' \<le> length u"
  then have l: "length u < length u'" by simp
  have tk: "take (length u') s = u'" unfolding s' by simp
  have dr: "drop (length c') (drop (length u') s) = t'" unfolding s' by simp
  from max have "length u < length u' \<and> list_all is_space (take (length u') s)
      \<longrightarrow> (\<forall>k. \<not> em_line (drop k (drop (length u') s)))"
    by (rule spec)
  with l sp' have "\<forall>k. \<not> em_line (drop k (drop (length u') s))"
    unfolding tk by blast
  then have "\<not> em_line (drop (length c') (drop (length u') s))" by (rule spec)
  with em' show False unfolding dr by simp
qed

lemma capture_unique:
  assumes d: "b = pre @ ''validation'' @ ws1 @ lbrace # mid @ ''condition'' @ ws2 @ CHR ''='' # ws3
      @ cap @ tail"
    and sp: "list_all is_space ws1" "list_all is_space ws2" "list_all is_space ws3"
    and em: "em_line tail"
    and L: "\<forall>k<length pre. \<not> validation_at (drop k b)"
    and M1: "\<forall>k<length mid. \<not> condition_at
        (drop k (mid @ ''condition'' @ ws2 @ CHR ''='' # ws3 @ cap @ tail))"
    and M2: "\<forall>n. length ws3 < n \<and> list_all is_space (take n (ws3 @ cap @ tail))
        \<longrightarrow> (\<forall>k. \<not> em_line (drop k (drop n (ws3 @ cap @ tail))))"
    and M3: "\<forall>k<length cap. \<not> em_line (drop k (cap @ tail))"
    and d': "b = pre' @ ''validation'' @ ws1' @ lbrace # mid' @ ''condition'' @ ws2' @ CHR ''=''
      # ws3' @ cap' @ tail'"
    and sp': "list_all is_space ws1'" "list_all is_space ws2'" "list_all is_space ws3'"
    and em': "em_line tail'"
    and L': "\<forall>k<length pre'. \<not> validation_at (drop k b)"
    and M1': "\<forall>k<length mid'. \<not> condition_at
        (drop k (mid' @ ''condition'' @ ws2' @ CHR ''='' # ws3' @ cap' @ tail'))"
    and M2': "\<forall>n. length ws3' < n \<and> list_all is_space (take n (ws3' @ cap' @ tail'))
        \<longrightarrow> (\<forall>k. \<not> em_line (drop k (drop n (ws3' @ cap' @ tail'))))"
    and M3': "\<forall>k<length cap'. \<not> em_line (drop k (cap' @ tail'))"
  shows "cap = cap'"
proof -
  let ?c = "''condition'' @ ws2 @ CHR ''='' # ws3 @ cap @ tail"
  let ?c' = "''condition'' @ ws2' @ CHR ''='' # ws3' @ cap' @ tail'"
  let ?v = "''validation'' @ ws1 @ lbrace # mid @ ?c"
  let ?v' = "''validation'' @ ws1' @ lbrace # mid' @ ?c'"
  have c: "condition_at ?c"
  proof -
    have "?c = ''condition'' @ ws2 @ CHR ''='' # (ws3 @ cap) @ tail" by simp
    with sp(2) em show ?thesis unfolding condition_at_def by blast
  qed
  have c': "condition_at ?c'"
  proof -
    have "?c' = ''condition'' @ ws2' @ CHR ''='' # (ws3' @ cap') @ tail'" by simp
    with sp'(2) em' show ?thesis unfolding condition_at_def by blast
  qed
  have v: "validation_at ?v" unfolding validation_at_def using sp(1) c by blast
  have v': "validation_at ?v'" unfolding validation_at_def using sp'(1) c' by blast
  have e0: "pre @ ?v = pre' @ ?v'" using d d' by simp
  have b0: "b = pre @ ?v" "b = pre' @ ?v'" using d d' by simp_all
  have "pre = pre' \<and> ?v = ?v'"
    by (rule first_split_unique [OF e0 v v' L [unfolded b0(1)] L' [unfolded b0(2)]])
  then have e1: "ws1 @ lbrace # mid @ ?c = ws1' @ lbrace # mid' @ ?c'" by simp
  have nl: "\<not> is_space lbrace" by (simp add: is_space_def lbrace_def)
  from span_unique [OF sp(1) sp'(1) nl nl e1] have e2: "mid @ ?c = mid' @ ?c'" by simp
  have "mid = mid' \<and> ?c = ?c'"
    by (rule first_split_unique [OF e2 c c' M1 M1'])
  then have e3: "ws2 @ CHR ''='' # ws3 @ cap @ tail = ws2' @ CHR ''='' # ws3' @ cap' @ tail'"
    by simp
  have ne: "\<not> is_space CHR ''=''" by (simp add: is_space_def)
  from span_unique [OF sp(2) sp'(2) ne ne e3]
  have e4: "ws3 @ cap @ tail = ws3' @ cap' @ tail'" by simp
  have "length ws3' \<le> length ws3" by (rule greedy_split_le [OF refl e4 sp'(3) em' M2])
  moreover have "length ws3 \<le> length ws3'"
    by (rule greedy_split_le [OF refl e4 [symmetric] sp(3) em M2'])
  ultimately have "length ws3 = length ws3'" by simp
  with e4 have e5: "cap @ tail = cap' @ tail'" by simp
  have "cap = cap' \<and> tail = tail'"
    by (rule first_split_unique [OF e5 em em' M3 M3'])
  then show ?thesis by simp
qed

lemma block_unique:
  assumes d: "b = pre @ f @ post"
    and f: "f = ''validation'' @ ws @ lbrace # mid @ newline # ws' @ [rbrace]"
    and sp: "list_all is_space ws" "list_all is_space ws'"
    and L: "\<forall>k<length pre. \<not> block_at (drop k b)"
    and M: "\<forall>k<length mid. \<not> brace_line (drop k (mid @ newline # ws' @ rbrace # post))"
    and d': "b = pre' @ f' @ post'"
    and f': "f' = ''validation'' @ wsa @ lbrace # mid' @ newline # wsb @ [rbrace]"
    and sp': "list_all is_space wsa" "list_all is_space wsb"
    and L': "\<forall>k<length pre'. \<not> block_at (drop k b)"
    and M': "\<forall>k<length mid'. \<not> brace_line (drop k (mid' @ newline # wsb @ rbrace # post'))"
  shows "f = f'"
proof -
  let ?t = "newline # ws' @ rbrace # post"
  let ?t' = "newline # wsb @ rbrace # post'"
  let ?v = "''validation'' @ ws @ lbrace # mid @ ?t"
  let ?v' = "''validation'' @ wsa @ lbrace # mid' @ ?t'"
  have t: "brace_line ?t" unfolding brace_line_def using sp(2) by blast
  have t': "brace_line ?t'" unfolding brace_line_def using sp'(2) by blast
  have v: "block_at ?v" unfolding block_at_def using sp(1) t by blast
  have v': "block_at ?v'" unfolding block_at_def using sp'(1) t' by blast
  have b0: "b = pre @ ?v" "b = pre' @ ?v'" using d f d' f' by simp_all
  have e0: "pre @ ?v = pre' @ ?v'" using b0 by simp
  have "pre = pre' \<and> ?v = ?v'"
    by (rule first_split_unique [OF e0 v v' L [unfolded b0(1)] L' [unfolded b0(2)]])
  then have e1: "ws @ lbrace # mid @ ?t = wsa @ lbrace # mid' @ ?t'" by simp
  have nl: "\<not> is_space lbrace" by (simp add: is_space_def lbrace_def)
  from span_unique [OF sp(1) sp'(1) nl nl e1] have ws: "ws = wsa"
    and e2: "mid @ ?t = mid' @ ?t'"
    by simp_all
  have "mid = mid' \<and> ?t = ?t'"
    by (rule first_split_unique [OF e2 t t' M M'])
  then have mid: "mid = mid'" and e3: "ws' @ rbrace # post = wsb @ rbrace # post'" by simp_all
  have nr: "\<not> is_space rbrace" by (simp add: is_space_def rbrace_def)
  from span_unique [OF sp(2) sp'(2) nr nr e3] have "ws' = wsb" by simp
  with ws mid f f' show ?thesis by simp
qed

lemma validation_pattern_sound:
  assumes v: "validation (parseFields varName blockContent) = Some v"
  shows "(\<exists>pre ws1 mid ws2 ws3 cap tail.
          blockContent = pre @ ''validation'' @ ws1 @ lbrace # mid @ ''condition'' @ ws2
            @ CHR ''='' # ws3 @ cap @ tail
          \<and> list_all is_space ws1 \<and> list_all is_space ws2 \<and> list_all is_space ws3
          \<and> em_line tail
          \<and> condition v = trim cap
          \<and> (\<forall>k<length pre. \<not> validation_at (drop k blockContent))
          \<and> (\<forall>k<length mid. \<not> condition_at
                (drop k (mid @ ''condition'' @ ws2 @ CHR ''='' # ws3 @ cap @ tail)))
          \<and> (\<forall>n. length ws3 < n \<and> list_all is_space (take n (ws3 @ cap @ tail))
                \<longrightarrow> (\<forall>k. \<not> em_line (drop k (drop n (ws3 @ cap @ tail)))))
          \<and> (\<forall>k<length cap. \<not> em_line (drop k (cap @ tail))))
     \<and> (if \<exists>k. block_at (drop k blockContent)
          then \<exists>pre ws mid ws' post.
                 blockContent = pre @ fullBlock v @ post
                 \<and> fullBlock v = ''validation'' @ ws @ lbrace # mid @ newline # ws' @ [rbrace]
                 \<and> list_all is_space ws \<and> list_all is_space ws'
                 \<and> (\<forall>k<length pre. \<not> block_at (drop k blockContent))
                 \<and> (\<forall>k<length mid. \<not> brace_line
                       (drop k (mid @ newline # ws' @ rbrace # post)))
          else fullBlock v = [])"
proof -
  from v obtain m where m: "rsearch validationRegex None blockContent = Some m"
    and cv: "condition v = trim (group1 m)"
    and fv: "fullBlock v = (case rsearch fullBlockRegex None blockContent of
                         Some f \<Rightarrow> match_text f | None \<Rightarrow> [])"
    unfolding validation_parsed by (auto split: option.splits)
  from rsearch_Some [OF m] obtain pre where pre: "blockContent = pre @ mstart m"
    "rmatch validationRegex (lastp None pre) (mstart m) ([], [])
       = Some (mend m, gopen m, gclose m)"
    "\<forall>k<length pre. rmatch validationRegex (lastp None (take k pre)) (drop k blockContent)
       ([], []) = None"
    by blast
  from validation_match_pinned [OF pre(2)] obtain ws1 mid ws2 ws3 cap tail where
    d: "mstart m = ''validation'' @ ws1 @ lbrace # mid @ ''condition'' @ ws2 @ CHR ''='' # ws3
          @ cap @ tail"
      "list_all is_space ws1" "list_all is_space ws2" "list_all is_space ws3"
      "em_line tail" "gopen m = cap @ tail" "gclose m = tail"
      "\<forall>k<length mid. \<not> condition_at
          (drop k (mid @ ''condition'' @ ws2 @ CHR ''='' # ws3 @ cap @ tail))"
      "\<forall>n. length ws3 < n \<and> list_all is_space (take n (ws3 @ cap @ tail))
          \<longrightarrow> (\<forall>k. \<not> em_line (drop k (drop n (ws3 @ cap @ tail))))"
      "\<forall>k<length cap. \<not> em_line (drop k (cap @ tail))"
    by blast
  have g: "group1 m = cap" using d(6,7) by (simp add: group1_def)
  have c: "condition v = trim cap" using cv g by simp
  have b: "blockContent = pre @ ''validation'' @ ws1 @ lbrace # mid @ ''condition'' @ ws2
            @ CHR ''='' # ws3 @ cap @ tail"
    using pre(1) d(1) by simp
  have L: "\<forall>k<length pre. \<not> validation_at (drop k blockContent)"
  proof (intro allI impI)
    fix k assume "k < length pre"
    with pre(3) have "rmatch validationRegex (lastp None (take k pre)) (drop k blockContent)
       ([], []) = None"
      by blast
    then show "\<not> validation_at (drop k blockContent)"
      using validation_match [of "lastp None (take k pre)" "drop k blockContent" "([], [])"]
      by simp
  qed
  from b d(2,3,4,5) c L d(8,9,10)
  have A: "\<exists>pre ws1 mid ws2 ws3 cap tail.
          blockContent = pre @ ''validation'' @ ws1 @ lbrace # mid @ ''condition'' @ ws2
            @ CHR ''='' # ws3 @ cap @ tail
          \<and> list_all is_space ws1 \<and> list_all is_space ws2 \<and> list_all is_space ws3
          \<and> em_line tail
          \<and> condition v = trim cap
          \<and> (\<forall>k<length pre. \<not> validation_at (drop k blockContent))
          \<and> (\<forall>k<length mid. \<not> condition_at
                (drop k (mid @ ''condition'' @ ws2 @ CHR ''='' # ws3 @ cap @ tail)))
          \<and> (\<forall>n. length ws3 < n \<and> list_all is_space (take n (ws3 @ cap @ tail))
                \<longrightarrow> (\<forall>k. \<not> em_line (drop k (drop n (ws3 @ cap @ tail)))))
          \<and> (\<forall>k<length cap. \<not> em_line (drop k (cap @ tail)))"
    by blast
  have B: "if \<exists>k. block_at (drop k blockContent)
          then \<exists>pre ws mid ws' post.
                 blockContent = pre @ fullBlock v @ post
                 \<and> fullBlock v = ''validation'' @ ws @ lbrace # mid @ newline # ws' @ [rbrace]
                 \<and> list_all is_space ws \<and> list_all is_space ws'
                 \<and> (\<forall>k<length pre. \<not> block_at (drop k blockContent))
                 \<and> (\<forall>k<length mid. \<not> brace_line
                       (drop k (mid @ newline # ws' @ rbrace # post)))
          else fullBlock v = []"
  proof (cases "rsearch fullBlockRegex None blockContent")
    case None
    have "\<not> block_at (drop k blockContent)" for k
    proof (cases "k \<le> length blockContent")
      case True
      from rsearch_None [OF None True]
      show ?thesis
        using block_match [of "lastp None (take k blockContent)" "drop k blockContent"
            "([], [])"]
        by simp
    next
      case False
      then show ?thesis by (simp add: block_at_Nil)
    qed
    then have "\<not> (\<exists>k. block_at (drop k blockContent))" by blast
    moreover have "fullBlock v = []" using fv None by simp
    ultimately show ?thesis by simp
  next
    case (Some f)
    from rsearch_Some [OF Some] obtain pre' where pre': "blockContent = pre' @ mstart f"
      "rmatch fullBlockRegex (lastp None pre') (mstart f) ([], [])
         = Some (mend f, gopen f, gclose f)"
      "\<forall>k<length pre'. rmatch fullBlockRegex (lastp None (take k pre'))
         (drop k blockContent) ([], []) = None"
      by blast
    from fullBlock_match_pinned [OF pre'(2)] obtain ws mid' ws' where
      f: "mstart f = (''validation'' @ ws @ lbrace # mid' @ newline # ws' @ [rbrace]) @ mend f"
        "list_all is_space ws" "list_all is_space ws'"
        "\<forall>k<length mid'. \<not> brace_line (drop k (mid' @ newline # ws' @ rbrace # mend f))"
      by blast
    have ft: "fullBlock v = ''validation'' @ ws @ lbrace # mid' @ newline # ws' @ [rbrace]"
      using fv Some match_text_eq [OF f(1)] by simp
    have bb: "blockContent = pre' @ fullBlock v @ mend f"
      using pre'(1) f(1) ft by simp
    have L': "\<forall>k<length pre'. \<not> block_at (drop k blockContent)"
    proof (intro allI impI)
      fix k assume "k < length pre'"
      with pre'(3) have "rmatch fullBlockRegex (lastp None (take k pre'))
         (drop k blockContent) ([], []) = None"
        by blast
      then show "\<not> block_at (drop k blockContent)"
        using block_match [of "lastp None (take k pre')" "drop k blockContent" "([], [])"]
        by simp
    qed
    from pre'(2) have "rmatch fullBlockRegex (lastp None pre') (mstart f) ([], []) \<noteq> None"
      by simp
    then have "block_at (mstart f)" by (simp only: block_match)
    moreover have "drop (length pre') blockContent = mstart f" using pre'(1) by simp
    ultimately have "block_at (drop (length pre') blockContent)" by simp
    then have E: "\<exists>k. block_at (drop k blockContent)" by blast
    from bb ft f(2,3) L' f(4)
    have "\<exists>pre ws mid ws' post.
                 blockContent = pre @ fullBlock v @ post
                 \<and> fullBlock v = ''validation'' @ ws @ lbrace # mid @ newline # ws' @ [rbrace]
                 \<and> list_all is_space ws \<and> list_all is_space ws'
                 \<and> (\<forall>k<length pre. \<not> block_at (drop k blockContent))
                 \<and> (\<forall>k<length mid. \<not> brace_line
                       (drop k (mid @ newline # ws' @ rbrace # post)))"
      by blast
    with E show ?thesis by simp
  qed
  from A B show ?thesis by blast
qed

lemma validation_atI:
  assumes "list_all is_space ws1" "list_all is_space ws2" "em_line tail"
  shows "validation_at (''validation'' @ ws1 @ lbrace # mid @ ''condition'' @ ws2 @ CHR ''=''
      # ws3 @ cap @ tail)"
proof -
  have "''condition'' @ ws2 @ CHR ''='' # ws3 @ cap @ tail
      = ''condition'' @ ws2 @ CHR ''='' # (ws3 @ cap) @ tail"
    by simp
  with assms(2,3) have "condition_at (''condition'' @ ws2 @ CHR ''='' # ws3 @ cap @ tail)"
    unfolding condition_at_def by blast
  with assms(1) show ?thesis unfolding validation_at_def by blast
qed

text \<open>
  C6, as the code has it.  The validation attribute is found by two patterns over the
  outer block, not by counting braces.  It is present exactly when the block text has the
  keyword \<open>validation\<close>, optional white space, an opening brace, any text, the word
  \<open>condition\<close>, optional white space, \<open>=\<close>, and later a line that begins (after
  optional white space) with \<open>error_message\<close>.  When the keyword \<open>validation\<close>
  does not occur in the block text, the attribute is absent.

  The value of the attribute is this one and no other.  The match begins at the leftmost
  \<open>validation\<close> that begins such a text.  After its opening brace the text is skipped
  lazily, up to the first \<open>condition =\<close> that is followed by an error-message line.
  The white space after \<open>=\<close> is skipped greedily, as far as an error-message line
  still follows.  The condition is the text from there up to the first error-message
  line, trimmed.  The \<open>fullBlock\<close> is empty when no \<open>validation\<close>, optional white
  space and opening brace is followed by a closing line; otherwise it runs from the
  leftmost such \<open>validation\<close> through the closing brace of the first closing line
  after its opening brace.
\<close>

theorem validation_by_pattern:
  "(validation (parseFields varName blockContent) \<noteq> None
    \<longleftrightarrow> (\<exists>pre ws1 mid ws2 between ws4 post.
         blockContent = pre @ ''validation'' @ ws1 @ lbrace # mid @ ''condition'' @ ws2
           @ CHR ''='' # between @ ''error_message'' @ post
         \<and> list_all is_space ws1 \<and> list_all is_space ws2 \<and> list_all is_space ws4
         \<and> suffix (newline # ws4) between))
   \<and> (\<not> sublist ''validation'' blockContent
        \<longrightarrow> validation (parseFields varName blockContent) = None)
   \<and> (\<forall>v. validation (parseFields varName blockContent) = Some v \<longleftrightarrow>
      (\<exists>pre ws1 mid ws2 ws3 cap tail.
        blockContent = pre @ ''validation'' @ ws1 @ lbrace # mid @ ''condition'' @ ws2
          @ CHR ''='' # ws3 @ cap @ tail
        \<and> list_all is_space ws1 \<and> list_all is_space ws2 \<and> list_all is_space ws3
        \<and> em_line tail
        \<and> condition v = trim cap
        \<and> (\<forall>k<length pre. \<not> validation_at (drop k blockContent))
        \<and> (\<forall>k<length mid. \<not> condition_at
              (drop k (mid @ ''condition'' @ ws2 @ CHR ''='' # ws3 @ cap @ tail)))
        \<and> (\<forall>n. length ws3 < n \<and> list_all is_space (take n (ws3 @ cap @ tail))
              \<longrightarrow> (\<forall>k. \<not> em_line (drop k (drop n (ws3 @ cap @ tail)))))
        \<and> (\<forall>k<length cap. \<not> em_line (drop k (cap @ tail))))
      \<and> (if \<exists>k. block_at (drop k blockContent)
        then \<exists>pre ws mid ws' post.
               blockContent = pre @ fullBlock v @ post
               \<and> fullBlock v = ''validation'' @ ws @ lbrace # mid @ newline # ws' @ [rbrace]
               \<and> list_all is_space ws \<and> list_all is_space ws'
               \<and> (\<forall>k<length pre. \<not> block_at (drop k blockContent))
               \<and> (\<forall>k<length mid. \<not> brace_line
                     (drop k (mid @ newline # ws' @ rbrace # post)))
        else fullBlock v = []))"
proof -
  have 1: "validation (parseFields varName blockContent) \<noteq> None
    \<longleftrightarrow> (\<exists>pre ws1 mid ws2 between ws4 post.
         blockContent = pre @ ''validation'' @ ws1 @ lbrace # mid @ ''condition'' @ ws2
           @ CHR ''='' # between @ ''error_message'' @ post
         \<and> list_all is_space ws1 \<and> list_all is_space ws2 \<and> list_all is_space ws4
         \<and> suffix (newline # ws4) between)"
    by (rule validation_found_iff)
  have 2: "\<not> sublist ''validation'' blockContent
        \<longrightarrow> validation (parseFields varName blockContent) = None"
  proof (rule impI, rule ccontr)
    assume n: "\<not> sublist ''validation'' blockContent"
      and "validation (parseFields varName blockContent) \<noteq> None"
    with 1 obtain pre rest where "blockContent = pre @ ''validation'' @ rest" by blast
    then have "sublist ''validation'' blockContent" by (simp only: sublist_appendI)
    with n show False by simp
  qed
  have 3: "validation (parseFields varName blockContent) = Some v \<longleftrightarrow>
      (\<exists>pre ws1 mid ws2 ws3 cap tail.
        blockContent = pre @ ''validation'' @ ws1 @ lbrace # mid @ ''condition'' @ ws2
          @ CHR ''='' # ws3 @ cap @ tail
        \<and> list_all is_space ws1 \<and> list_all is_space ws2 \<and> list_all is_space ws3
        \<and> em_line tail
        \<and> condition v = trim cap
        \<and> (\<forall>k<length pre. \<not> validation_at (drop k blockContent))
        \<and> (\<forall>k<length mid. \<not> condition_at
              (drop k (mid @ ''condition'' @ ws2 @ CHR ''='' # ws3 @ cap @ tail)))
        \<and> (\<forall>n. length ws3 < n \<and> list_all is_space (take n (ws3 @ cap @ tail))
              \<longrightarrow> (\<forall>k. \<not> em_line (drop k (drop n (ws3 @ cap @ tail)))))
        \<and> (\<forall>k<length cap. \<not> em_line (drop k (cap @ tail))))
      \<and> (if \<exists>k. block_at (drop k blockContent)
        then \<exists>pre ws mid ws' post.
               blockContent = pre @ fullBlock v @ post
               \<and> fullBlock v = ''validation'' @ ws @ lbrace # mid @ newline # ws' @ [rbrace]
               \<and> list_all is_space ws \<and> list_all is_space ws'
               \<and> (\<forall>k<length pre. \<not> block_at (drop k blockContent))
               \<and> (\<forall>k<length mid. \<not> brace_line
                     (drop k (mid @ newline # ws' @ rbrace # post)))
        else fullBlock v = [])" for v
  proof
    assume "validation (parseFields varName blockContent) = Some v"
    then show "(\<exists>pre ws1 mid ws2 ws3 cap tail.
        blockContent = pre @ ''validation'' @ ws1 @ lbrace # mid @ ''condition'' @ ws2
          @ CHR ''='' # ws3 @ cap @ tail
        \<and> list_all is_space ws1 \<and> list_all is_space ws2 \<and> list_all is_space ws3
        \<and> em_line tail
        \<and> condition v = trim cap
        \<and> (\<forall>k<length pre. \<not> validation_at (drop k blockContent))
        \<and> (\<forall>k<length mid. \<not> condition_at
              (drop k (mid @ ''condition'' @ ws2 @ CHR ''='' # ws3 @ cap @ tail)))
        \<and> (\<forall>n. length ws3 < n \<and> list_all is_space (take n (ws3 @ cap @ tail))
              \<longrightarrow> (\<forall>k. \<not> em_line (drop k (drop n (ws3 @ cap @ tail)))))
        \<and> (\<forall>k<length cap. \<not> em_line (drop k (cap @ tail))))
      \<and> (if \<exists>k. block_at (drop k blockContent)
        then \<exists>pre ws mid ws' post.
               blockContent = pre @ fullBlock v @ post
               \<and> fullBlock v = ''validation'' @ ws @ lbrace # mid @ newline # ws' @ [rbrace]
               \<and> list_all is_space ws \<and> list_all is_space ws'
               \<and> (\<forall>k<length pre. \<not> block_at (drop k blockContent))
               \<and> (\<forall>k<length mid. \<not> brace_line
                     (drop k (mid @ newline # ws' @ rbrace # post)))
        else fullBlock v = [])"
      by (rule validation_pattern_sound)
  next
    assume R: "(\<exists>pre ws1 mid ws2 ws3 cap tail.
        blockContent = pre @ ''validation'' @ ws1 @ lbrace # mid @ ''condition'' @ ws2
          @ CHR ''='' # ws3 @ cap @ tail
        \<and> list_all is_space ws1 \<and> list_all is_space ws2 \<and> list_all is_space ws3
        \<and> em_line tail
        \<and> condition v = trim cap
        \<and> (\<forall>k<length pre. \<not> validation_at (drop k blockContent))
        \<and> (\<forall>k<length mid. \<not> condition_at
              (drop k (mid @ ''condition'' @ ws2 @ CHR ''='' # ws3 @ cap @ tail)))
        \<and> (\<forall>n. length ws3 < n \<and> list_all is_space (take n (ws3 @ cap @ tail))
              \<longrightarrow> (\<forall>k. \<not> em_line (drop k (drop n (ws3 @ cap @ tail)))))
        \<and> (\<forall>k<length cap. \<not> em_line (drop k (cap @ tail))))
      \<and> (if \<exists>k. block_at (drop k blockContent)
        then \<exists>pre ws mid ws' post.
               blockContent = pre @ fullBlock v @ post
               \<and> fullBlock v = ''validation'' @ ws @ lbrace # mid @ newline # ws' @ [rbrace]
               \<and> list_all is_space ws \<and> list_all is_space ws'
               \<and> (\<forall>k<length pre. \<not> block_at (drop k blockContent))
               \<and> (\<forall>k<length mid. \<not> brace_line
                     (drop k (mid @ newline # ws' @ rbrace # post)))
        else fullBlock v = [])"
    then obtain pre ws1 mid ws2 ws3 cap tail where
      d: "blockContent = pre @ ''validation'' @ ws1 @ lbrace # mid @ ''condition'' @ ws2
          @ CHR ''='' # ws3 @ cap @ tail"
      and sp: "list_all is_space ws1" "list_all is_space ws2" "list_all is_space ws3"
      and em: "em_line tail"
      and c: "condition v = trim cap"
      and L: "\<forall>k<length pre. \<not> validation_at (drop k blockContent)"
      and M1: "\<forall>k<length mid. \<not> condition_at
          (drop k (mid @ ''condition'' @ ws2 @ CHR ''='' # ws3 @ cap @ tail))"
      and M2: "\<forall>n. length ws3 < n \<and> list_all is_space (take n (ws3 @ cap @ tail))
          \<longrightarrow> (\<forall>k. \<not> em_line (drop k (drop n (ws3 @ cap @ tail))))"
      and M3: "\<forall>k<length cap. \<not> em_line (drop k (cap @ tail))"
      by blast
    from R have B: "(if \<exists>k. block_at (drop k blockContent)
        then \<exists>pre ws mid ws' post.
               blockContent = pre @ fullBlock v @ post
               \<and> fullBlock v = ''validation'' @ ws @ lbrace # mid @ newline # ws' @ [rbrace]
               \<and> list_all is_space ws \<and> list_all is_space ws'
               \<and> (\<forall>k<length pre. \<not> block_at (drop k blockContent))
               \<and> (\<forall>k<length mid. \<not> brace_line
                     (drop k (mid @ newline # ws' @ rbrace # post)))
        else fullBlock v = [])"
      by (rule conjunct2)
    have "validation_at (''validation'' @ ws1 @ lbrace # mid @ ''condition'' @ ws2 @ CHR ''=''
        # ws3 @ cap @ tail)"
      by (rule validation_atI [OF sp(1,2) em])
    then have "rmatch validationRegex (lastp None pre) (''validation'' @ ws1 @ lbrace # mid
        @ ''condition'' @ ws2 @ CHR ''='' # ws3 @ cap @ tail) ([], []) \<noteq> None"
      by (simp only: validation_match)
    with d have "rsearch validationRegex None blockContent \<noteq> None"
      unfolding rsearch_found_iff by blast
    then obtain v0 where v0: "validation (parseFields varName blockContent) = Some v0"
      unfolding validation_parsed by (auto split: option.splits)
    from validation_pattern_sound [OF v0] obtain pre' ws1' mid' ws2' ws3' cap' tail' where
      d': "blockContent = pre' @ ''validation'' @ ws1' @ lbrace # mid' @ ''condition'' @ ws2'
          @ CHR ''='' # ws3' @ cap' @ tail'"
      and sp': "list_all is_space ws1'" "list_all is_space ws2'" "list_all is_space ws3'"
      and em': "em_line tail'"
      and c': "condition v0 = trim cap'"
      and L': "\<forall>k<length pre'. \<not> validation_at (drop k blockContent)"
      and M1': "\<forall>k<length mid'. \<not> condition_at
          (drop k (mid' @ ''condition'' @ ws2' @ CHR ''='' # ws3' @ cap' @ tail'))"
      and M2': "\<forall>n. length ws3' < n \<and> list_all is_space (take n (ws3' @ cap' @ tail'))
          \<longrightarrow> (\<forall>k. \<not> em_line (drop k (drop n (ws3' @ cap' @ tail'))))"
      and M3': "\<forall>k<length cap'. \<not> em_line (drop k (cap' @ tail'))"
      by blast
    from validation_pattern_sound [OF v0] have B0: "(if \<exists>k. block_at (drop k blockContent)
        then \<exists>pre ws mid ws' post.
               blockContent = pre @ fullBlock v0 @ post
               \<and> fullBlock v0 = ''validation'' @ ws @ lbrace # mid @ newline # ws' @ [rbrace]
               \<and> list_all is_space ws \<and> list_all is_space ws'
               \<and> (\<forall>k<length pre. \<not> block_at (drop k blockContent))
               \<and> (\<forall>k<length mid. \<not> brace_line
                     (drop k (mid @ newline # ws' @ rbrace # post)))
        else fullBlock v0 = [])"
      by (rule conjunct2)
    have "cap = cap'"
      by (rule capture_unique [OF d sp em L M1 M2 M3 d' sp' em' L' M1' M2' M3'])
    with c c' have cc: "condition v = condition v0" by simp
    have ff: "fullBlock v = fullBlock v0"
    proof (cases "\<exists>k. block_at (drop k blockContent)")
      case True
      from B have "\<exists>pre ws mid ws' post.
          blockContent = pre @ fullBlock v @ post
          \<and> fullBlock v = ''validation'' @ ws @ lbrace # mid @ newline # ws' @ [rbrace]
          \<and> list_all is_space ws \<and> list_all is_space ws'
          \<and> (\<forall>k<length pre. \<not> block_at (drop k blockContent))
          \<and> (\<forall>k<length mid. \<not> brace_line (drop k (mid @ newline # ws' @ rbrace # post)))"
        unfolding if_P [OF True] .
      then obtain pre ws mid ws' post where
        f: "blockContent = pre @ fullBlock v @ post"
          "fullBlock v = ''validation'' @ ws @ lbrace # mid @ newline # ws' @ [rbrace]"
          "list_all is_space ws" "list_all is_space ws'"
          "\<forall>k<length pre. \<not> block_at (drop k blockContent)"
          "\<forall>k<length mid. \<not> brace_line (drop k (mid @ newline # ws' @ rbrace # post))"
        by blast
      from B0 have "\<exists>pre ws mid ws' post.
          blockContent = pre @ fullBlock v0 @ post
          \<and> fullBlock v0 = ''validation'' @ ws @ lbrace # mid @ newline # ws' @ [rbrace]
          \<and> list_all is_space ws \<and> list_all is_space ws'
          \<and> (\<forall>k<length pre. \<not> block_at (drop k blockContent))
          \<and> (\<forall>k<length mid. \<not> brace_line (drop k (mid @ newline # ws' @ rbrace # post)))"
        unfolding if_P [OF True] .
      then obtain pre0 wsa mid0 wsb post0 where
        f0: "blockContent = pre0 @ fullBlock v0 @ post0"
          "fullBlock v0 = ''validation'' @ wsa @ lbrace # mid0 @ newline # wsb @ [rbrace]"
          "list_all is_space wsa" "list_all is_space wsb"
          "\<forall>k<length pre0. \<not> block_at (drop k blockContent)"
          "\<forall>k<length mid0. \<not> brace_line (drop k (mid0 @ newline # wsb @ rbrace # post0))"
        by blast
      show ?thesis by (rule block_unique [OF f f0])
    next
      case False
      with B B0 show ?thesis by simp
    qed
    from cc ff have "v = v0" by simp
    with v0 show "validation (parseFields varName blockContent) = Some v" by simp
  qed
  from 1 2 3 show ?thesis by blast
qed

theorem validation_by_pattern_witness:
  "validation (parseFields ''v'' two_validations_block)
     = Some \<lparr>condition = ''a'',
        fullBlock = ''validation {'' @ [newline] @ ''    condition = a'' @ [newline]
          @ ''    error_message = '' @ [dquote] @ ''x'' @ [dquote] @ [newline] @ ''  }''\<rparr>
   \<and> (\<exists>pre ws1 mid ws2 ws3 cap tail.
        two_validations_block = pre @ ''validation'' @ ws1 @ lbrace # mid @ ''condition'' @ ws2
          @ CHR ''='' # ws3 @ cap @ tail
        \<and> em_line tail \<and> ''a'' = trim cap
        \<and> (\<forall>k<length pre. \<not> validation_at (drop k two_validations_block))
        \<and> (\<forall>k<length cap. \<not> em_line (drop k (cap @ tail))))
   \<and> \<not> sublist ''validation'' ''{ type = string }''
   \<and> validation (parseFields ''v'' ''{ type = string }'') = None"
proof -
  let ?v = "\<lparr>condition = ''a'',
        fullBlock = ''validation {'' @ [newline] @ ''    condition = a'' @ [newline]
          @ ''    error_message = '' @ [dquote] @ ''x'' @ [dquote] @ [newline] @ ''  }''\<rparr>"
  have a: "validation (parseFields ''v'' two_validations_block) = Some ?v"
    by code_simp
  from validation_by_pattern [of "''v''" two_validations_block]
  have "validation (parseFields ''v'' two_validations_block) = Some ?v \<longleftrightarrow>
      (\<exists>pre ws1 mid ws2 ws3 cap tail.
        two_validations_block = pre @ ''validation'' @ ws1 @ lbrace # mid @ ''condition'' @ ws2
          @ CHR ''='' # ws3 @ cap @ tail
        \<and> list_all is_space ws1 \<and> list_all is_space ws2 \<and> list_all is_space ws3
        \<and> em_line tail
        \<and> condition ?v = trim cap
        \<and> (\<forall>k<length pre. \<not> validation_at (drop k two_validations_block))
        \<and> (\<forall>k<length mid. \<not> condition_at
              (drop k (mid @ ''condition'' @ ws2 @ CHR ''='' # ws3 @ cap @ tail)))
        \<and> (\<forall>n. length ws3 < n \<and> list_all is_space (take n (ws3 @ cap @ tail))
              \<longrightarrow> (\<forall>k. \<not> em_line (drop k (drop n (ws3 @ cap @ tail)))))
        \<and> (\<forall>k<length cap. \<not> em_line (drop k (cap @ tail))))
      \<and> (if \<exists>k. block_at (drop k two_validations_block)
        then \<exists>pre ws mid ws' post.
               two_validations_block = pre @ fullBlock ?v @ post
               \<and> fullBlock ?v = ''validation'' @ ws @ lbrace # mid @ newline # ws' @ [rbrace]
               \<and> list_all is_space ws \<and> list_all is_space ws'
               \<and> (\<forall>k<length pre. \<not> block_at (drop k two_validations_block))
               \<and> (\<forall>k<length mid. \<not> brace_line
                     (drop k (mid @ newline # ws' @ rbrace # post)))
        else fullBlock ?v = [])"
    by blast
  with a have "(\<exists>pre ws1 mid ws2 ws3 cap tail.
        two_validations_block = pre @ ''validation'' @ ws1 @ lbrace # mid @ ''condition'' @ ws2
          @ CHR ''='' # ws3 @ cap @ tail
        \<and> list_all is_space ws1 \<and> list_all is_space ws2 \<and> list_all is_space ws3
        \<and> em_line tail
        \<and> condition ?v = trim cap
        \<and> (\<forall>k<length pre. \<not> validation_at (drop k two_validations_block))
        \<and> (\<forall>k<length mid. \<not> condition_at
              (drop k (mid @ ''condition'' @ ws2 @ CHR ''='' # ws3 @ cap @ tail)))
        \<and> (\<forall>n. length ws3 < n \<and> list_all is_space (take n (ws3 @ cap @ tail))
              \<longrightarrow> (\<forall>k. \<not> em_line (drop k (drop n (ws3 @ cap @ tail)))))
        \<and> (\<forall>k<length cap. \<not> em_line (drop k (cap @ tail))))"
    by blast
  then obtain pre ws1 mid ws2 ws3 cap tail where
    "two_validations_block = pre @ ''validation'' @ ws1 @ lbrace # mid @ ''condition'' @ ws2
          @ CHR ''='' # ws3 @ cap @ tail"
    "em_line tail" "condition ?v = trim cap"
    "\<forall>k<length pre. \<not> validation_at (drop k two_validations_block)"
    "\<forall>k<length cap. \<not> em_line (drop k (cap @ tail))"
    by blast
  then have "two_validations_block = pre @ ''validation'' @ ws1 @ lbrace # mid @ ''condition''
          @ ws2 @ CHR ''='' # ws3 @ cap @ tail
        \<and> em_line tail \<and> ''a'' = trim cap
        \<and> (\<forall>k<length pre. \<not> validation_at (drop k two_validations_block))
        \<and> (\<forall>k<length cap. \<not> em_line (drop k (cap @ tail)))"
    by simp
  then have b: "\<exists>pre ws1 mid ws2 ws3 cap tail.
        two_validations_block = pre @ ''validation'' @ ws1 @ lbrace # mid @ ''condition'' @ ws2
          @ CHR ''='' # ws3 @ cap @ tail
        \<and> em_line tail \<and> ''a'' = trim cap
        \<and> (\<forall>k<length pre. \<not> validation_at (drop k two_validations_block))
        \<and> (\<forall>k<length cap. \<not> em_line (drop k (cap @ tail)))"
    by blast
  have c: "\<not> sublist ''validation'' ''{ type = string }''"
    by code_simp
  from c validation_by_pattern [of "''v''" "''{ type = string }''"]
  have d: "validation (parseFields ''v'' ''{ type = string }'') = None"
    by blast
  from a b c d show ?thesis by blast
qed

text \<open>
  C6 as it is stated fails in two ways.  In the block \<^const>\<open>nested_validation_block\<close>
  the code's \<open>fullBlock\<close> stops at the closing brace of the nested object: it has one
  more opening than closing brace, and the sub-block that brace counting returns from the
  first \<open>validation\<close> is not part of it.  In the block
  \<^const>\<open>keyword_in_condition_block\<close> the code's condition runs past the keyword
  \<open>error_message\<close> that follows \<open>condition =\<close>, up to the line that begins with
  it, while the text up to the following keyword is \<open>var.\<close>.
\<close>

theorem validation_block_not_brace_counted:
  "validation (parseFields ''v'' nested_validation_block)
     = Some \<lparr>condition = ''length({'' @ [newline] @ ''      a = 1'' @ [newline] @ ''    }) > 0'',
             fullBlock = ''validation {'' @ [newline] @ ''    condition = length({'' @ [newline]
                  @ ''      a = 1'' @ [newline] @ ''    }''\<rparr>
   \<and> braceCountedValidation nested_validation_block
     = Some (''{'' @ [newline] @ ''    condition = length({'' @ [newline] @ ''      a = 1''
                  @ [newline] @ ''    }) > 0'' @ [newline] @ ''    error_message = '' @ [dquote]
                  @ ''x'' @ [dquote] @ [newline] @ ''  }'')
   \<and> depth (''validation {'' @ [newline] @ ''    condition = length({'' @ [newline]
                  @ ''      a = 1'' @ [newline] @ ''    }'') = 1
   \<and> \<not> sublist (''{'' @ [newline] @ ''    condition = length({'' @ [newline] @ ''      a = 1''
                  @ [newline] @ ''    }) > 0'' @ [newline] @ ''    error_message = '' @ [dquote]
                  @ ''x'' @ [dquote] @ [newline] @ ''  }'')
        (''validation {'' @ [newline] @ ''    condition = length({'' @ [newline]
                  @ ''      a = 1'' @ [newline] @ ''    }'')
   \<and> validation (parseFields ''v'' keyword_in_condition_block)
     = Some \<lparr>condition = ''var.error_message != '' @ [dquote, dquote],
             fullBlock = ''validation {'' @ [newline] @ ''    condition = var.error_message != ''
                  @ [dquote, dquote] @ [newline] @ ''    error_message = '' @ [dquote] @ ''x''
                  @ [dquote] @ [newline] @ ''  }''\<rparr>
   \<and> conditionUpToKeyword keyword_in_condition_block = Some ''var.''"
  by code_simp

lemma rsearch_lit_sublist:
  assumes "rsearch (lit l @ r) p s = Some m"
  shows "sublist l s"
proof -
  from rsearch_Some [OF assms] obtain pre where pre: "s = pre @ mstart m"
    "rmatch (lit l @ r) (lastp p pre) (mstart m) ([], []) = Some (mend m, gopen m, gclose m)"
    by blast
  have "GOpen \<notin> set (lit l)" "GClose \<notin> set (lit l)"
    by (auto simp: lit_def Chr_def)
  from rmatch_split [OF this pre(2)] obtain w s' where
    w: "mstart m = w @ s'" "accepts (lit l) w"
    by blast
  from w(2) have "accepts (lit l @ []) w" by simp
  then have "w = l" unfolding accepts_lit by simp
  with pre(1) w(1) have "s = pre @ l @ s'" by simp
  then show ?thesis by (simp only: sublist_appendI)
qed

lemma parseFields_defaults:
  "name (parseFields varName b) = varName"
  "\<not> sublist ''default'' b \<Longrightarrow> \<not> hasDefault (parseFields varName b)"
  "\<not> sublist ''validation'' b \<or> \<not> sublist ''error_message'' b
     \<Longrightarrow> validation (parseFields varName b) = None"
  "\<not> sublist ''description'' b \<Longrightarrow> description (parseFields varName b) = []"
proof -
  show "name (parseFields varName b) = varName"
    by (simp add: parseFields_def Let_def)
next
  assume n: "\<not> sublist ''default'' b"
  show "\<not> hasDefault (parseFields varName b)"
  proof
    assume "hasDefault (parseFields varName b)"
    then have "rsearch defaultRegex None b \<noteq> None"
      by (simp add: parseFields_def rx_test_def Let_def)
    then obtain pre st where "b = pre @ st"
      "rmatch defaultRegex (lastp None pre) st ([], []) \<noteq> None"
      unfolding rsearch_found_iff by blast
    then obtain rest where "b = pre @ ''default'' @ rest"
      unfolding default_match_iff by auto
    then have "sublist ''default'' b" by (simp only: sublist_appendI)
    with n show False by simp
  qed
next
  assume n: "\<not> sublist ''validation'' b \<or> \<not> sublist ''error_message'' b"
  show "validation (parseFields varName b) = None"
  proof (rule ccontr)
    assume "validation (parseFields varName b) \<noteq> None"
    then obtain pre ws1 mid ws2 between ws4 post where
      b: "b = pre @ ''validation'' @ ws1 @ lbrace # mid @ ''condition'' @ ws2
           @ CHR ''='' # between @ ''error_message'' @ post"
      unfolding validation_found_iff by blast
    then have "b = pre @ ''validation'' @ (ws1 @ lbrace # mid @ ''condition'' @ ws2
           @ CHR ''='' # between @ ''error_message'' @ post)"
      by simp
    then have 1: "sublist ''validation'' b" by (simp only: sublist_appendI)
    from b have "b = (pre @ ''validation'' @ ws1 @ lbrace # mid @ ''condition'' @ ws2
           @ CHR ''='' # between) @ ''error_message'' @ post"
      by simp
    then have 2: "sublist ''error_message'' b" by (simp only: sublist_appendI)
    from n 1 2 show False by simp
  qed
next
  assume n: "\<not> sublist ''description'' b"
  show "description (parseFields varName b) = []"
  proof (cases "rsearch descriptionRegex None b")
    case None
    then show ?thesis by (simp add: parseFields_def Let_def rx_first_def)
  next
    case (Some m)
    then have "sublist ''description'' b"
      unfolding descriptionRegex_def by (rule rsearch_lit_sublist)
    with n show ?thesis by simp
  qed
qed

lemma parseVariableBlock_unclosed_prefixes:
  assumes "\<forall>p\<in>set (prefixes (drop (nat i) content)). lbrace \<in> set p \<longrightarrow> depth p \<noteq> 0"
  shows "parseVariableBlock content i = dropWhile (\<lambda>c. c \<noteq> lbrace) (drop (nat i) content)"
proof (rule parseVariableBlock_unclosed, intro allI impI)
  fix n
  assume "lbrace \<in> set (take n (drop (nat i) content))"
  moreover have "take n (drop (nat i) content) \<in> set (prefixes (drop (nat i) content))"
    by (simp add: take_is_prefix)
  ultimately show "depth (take n (drop (nat i) content)) \<noteq> 0"
    using assms by blast
qed

text \<open>
  C7.  Suppose that, reading on from the start index, the brace counter is not zero after
  any initial part that has an opening brace: the end of the text comes before the block is
  closed.  Then the extractor returns all the text from the first opening brace to the end
  of the text.  The field parser is total on that text, as on every text, and gives the
  documented value for each field whose keyword is missing from it: no default, no
  validation (also when only \<open>error_message\<close> was cut off), the empty description.
\<close>

theorem truncated_block_degrades:
  assumes "\<forall>p\<in>set (prefixes (drop (nat i) content)). lbrace \<in> set p \<longrightarrow> depth p \<noteq> 0"
  shows "parseVariableBlock content i = dropWhile (\<lambda>c. c \<noteq> lbrace) (drop (nat i) content)
     \<and> suffix (parseVariableBlock content i) content
     \<and> name (parseFields varName (parseVariableBlock content i)) = varName
     \<and> (\<not> sublist ''default'' (parseVariableBlock content i)
          \<longrightarrow> \<not> hasDefault (parseFields varName (parseVariableBlock content i)))
     \<and> (\<not> sublist ''validation'' (parseVariableBlock content i)
            \<or> \<not> sublist ''error_message'' (parseVariableBlock content i)
          \<longrightarrow> validation (parseFields varName (parseVariableBlock content i)) = None)
     \<and> (\<not> sublist ''description'' (parseVariableBlock content i)
          \<longrightarrow> description (parseFields varName (parseVariableBlock content i)) = [])"
proof -
  have 1: "parseVariableBlock content i = dropWhile (\<lambda>c. c \<noteq> lbrace) (drop (nat i) content)"
    by (rule parseVariableBlock_unclosed_prefixes [OF assms])
  have "suffix (dropWhile (\<lambda>c. c \<noteq> lbrace) (drop (nat i) content)) (drop (nat i) content)"
    by (rule suffix_dropWhile)
  then have 2: "suffix (parseVariableBlock content i) content"
    unfolding 1 using suffix_drop suffix_order.trans by blast
  note f = parseFields_defaults [where varName = varName and b = "parseVariableBlock content i"]
  from 1 2 f show ?thesis by blast
qed

theorem truncated_block_degrades_witness:
  "parseVariableBlock (''variable '' @ [dquote] @ ''x'' @ [dquote] @ '' {'' @ [newline] @ ''  description = '' @ [dquote] @ ''cut'') 13
     = ''{'' @ [newline] @ ''  description = '' @ [dquote] @ ''cut''
   \<and> parseFields ''x'' (''{'' @ [newline] @ ''  description = '' @ [dquote] @ ''cut'')
     = \<lparr>name = ''x'', hasDefault = False, validation = None, description = []\<rparr>
   \<and> \<not> sublist ''default'' (''{'' @ [newline] @ ''  description = '' @ [dquote] @ ''cut'')
   \<and> \<not> sublist ''validation'' (''{'' @ [newline] @ ''  description = '' @ [dquote] @ ''cut'')"
proof -
  have h: "\<forall>p\<in>set (prefixes (drop (nat 13) (''variable '' @ [dquote] @ ''x'' @ [dquote] @ '' {'' @ [newline] @ ''  description = '' @ [dquote] @ ''cut''))).
      lbrace \<in> set p \<longrightarrow> depth p \<noteq> 0"
    by code_simp
  have a: "\<not> sublist ''default'' (''{'' @ [newline] @ ''  description = '' @ [dquote] @ ''cut'')"
    "\<not> sublist ''validation'' (''{'' @ [newline] @ ''  description = '' @ [dquote] @ ''cut'')"
    by code_simp+
  have d: "dropWhile (\<lambda>c. c \<noteq> lbrace) (drop (nat 13) (''variable '' @ [dquote] @ ''x'' @ [dquote] @ '' {'' @ [newline] @ ''  description = '' @ [dquote] @ ''cut''))
      = ''{'' @ [newline] @ ''  description = '' @ [dquote] @ ''cut''"
    by code_simp
  have e: "description (parseFields ''x'' (''{'' @ [newline] @ ''  description = '' @ [dquote] @ ''cut'')) = []"
    by code_simp
  note t = truncated_block_degrades [OF h, of "''x''"]
  from t have "parseVariableBlock (''variable '' @ [dquote] @ ''x'' @ [dquote] @ '' {'' @ [newline] @ ''  description = '' @ [dquote] @ ''cut'') 13
     = dropWhile (\<lambda>c. c \<noteq> lbrace) (drop (nat 13) (''variable '' @ [dquote] @ ''x'' @ [dquote] @ '' {'' @ [newline] @ ''  description = '' @ [dquote] @ ''cut''))"
    by (rule conjunct1)
  then have 1: "parseVariableBlock (''variable '' @ [dquote] @ ''x'' @ [dquote] @ '' {'' @ [newline] @ ''  description = '' @ [dquote] @ ''cut'') 13
     = ''{'' @ [newline] @ ''  description = '' @ [dquote] @ ''cut''"
    by (rule trans) (rule d)
  note t' = t [unfolded 1]
  from t' a have 2: "name (parseFields ''x'' (''{'' @ [newline] @ ''  description = '' @ [dquote] @ ''cut'')) = ''x''"
    "\<not> hasDefault (parseFields ''x'' (''{'' @ [newline] @ ''  description = '' @ [dquote] @ ''cut''))"
    "validation (parseFields ''x'' (''{'' @ [newline] @ ''  description = '' @ [dquote] @ ''cut'')) = None"
    by blast+
  from 2 e have "parseFields ''x'' (''{'' @ [newline] @ ''  description = '' @ [dquote] @ ''cut'')
     = \<lparr>name = ''x'', hasDefault = False, validation = None, description = []\<rparr>"
    by (cases "parseFields ''x'' (''{'' @ [newline] @ ''  description = '' @ [dquote] @ ''cut'')") simp
  with 1 a show ?thesis by blast
qed

section \<open>Properties of header discovery\<close>

lemma variableRegex_parts:
  "variableRegex =
     (lit ''variable'' @ [One is_space, Star is_space, Chr dquote])
     @ GOpen # [One not_dquote, Star not_dquote] @ GClose # [Chr dquote, Star is_space, Chr lbrace]"
  by (simp add: variableRegex_def)

lemma variable_match_sound:
  assumes "rmatch variableRegex p st g = Some (e, go, gc)"
  shows "\<exists>ws nm ws'.
     st = ''variable'' @ ws @ dquote # nm @ dquote # ws' @ lbrace # e
     \<and> ws \<noteq> [] \<and> list_all is_space ws \<and> nm \<noteq> [] \<and> dquote \<notin> set nm \<and> list_all is_space ws'
     \<and> go = nm @ dquote # ws' @ lbrace # e \<and> gc = dquote # ws' @ lbrace # e"
proof -
  let ?r1 = "lit ''variable'' @ [One is_space, Star is_space, Chr dquote]"
  let ?r2 = "[One not_dquote, Star not_dquote]"
  let ?r3 = "[Chr dquote, Star is_space, Chr lbrace]"
  have gf: "GOpen \<notin> set ?r1" "GClose \<notin> set ?r1" "GOpen \<notin> set ?r2" "GClose \<notin> set ?r2"
    "GOpen \<notin> set ?r3" "GClose \<notin> set ?r3"
    by (simp_all add: lit_def Chr_def)
  from assms have "rmatch (?r1 @ GOpen # ?r2 @ GClose # ?r3) p st g = Some (e, go, gc)"
    by (simp only: variableRegex_parts)
  from rmatch_group [OF gf this] obtain w1 w2 w3 where
    w: "st = w1 @ w2 @ w3 @ e" "accepts ?r1 w1" "accepts ?r2 w2" "accepts ?r3 w3"
      "go = w2 @ w3 @ e" "gc = w3 @ e"
    by blast
  from w(2) obtain a where a: "w1 = ''variable'' @ a"
    "accepts [One is_space, Star is_space, Chr dquote] a"
    unfolding accepts_lit by blast
  from a(2) obtain x u where u: "a = x # u @ [dquote]" "is_space x" "list_all is_space u"
    by (auto simp: accepts_Chr)
  from w(3) obtain y v where v: "w2 = y # v" "not_dquote y" "list_all not_dquote v"
    by auto
  from w(4) obtain ws' where ws': "w3 = dquote # ws' @ [lbrace]" "list_all is_space ws'"
    by (auto simp: accepts_Chr)
  have nq: "dquote \<notin> set w2"
    using v by (auto simp: not_dquote_def list_all_iff)
  have "st = ''variable'' @ (x # u) @ dquote # w2 @ dquote # ws' @ lbrace # e
     \<and> x # u \<noteq> [] \<and> list_all is_space (x # u) \<and> w2 \<noteq> [] \<and> dquote \<notin> set w2
     \<and> list_all is_space ws'
     \<and> go = w2 @ dquote # ws' @ lbrace # e \<and> gc = dquote # ws' @ lbrace # e"
    using w(1,5,6) a(1) u v(1) ws' nq by simp
  then show ?thesis by blast
qed

lemma variable_match_complete:
  assumes "ws \<noteq> []" "list_all is_space ws" "nm \<noteq> []" "dquote \<notin> set nm"
    "list_all is_space ws'"
  shows "rmatch variableRegex p (''variable'' @ ws @ dquote # nm @ dquote # ws' @ lbrace # e) g
    \<noteq> None"
proof -
  obtain x u where ws: "ws = x # u" using assms(1) by (cases ws) auto
  obtain y v where nm: "nm = y # v" using assms(3) by (cases nm) auto
  have sx: "is_space x" "list_all is_space u" using assms(2) ws by simp_all
  have ny: "not_dquote y" "list_all not_dquote v"
    using assms(4) nm by (auto simp: not_dquote_def list_all_iff)
  let ?t1 = "[Chr dquote, Star is_space, Chr lbrace]"
  let ?t2 = "GOpen # One not_dquote # Star not_dquote # GClose # ?t1"
  have e0: "accepts [Chr lbrace] [lbrace]" by (simp add: accepts_Chr)
  have e1: "accepts ?t1 (dquote # ws' @ [lbrace])"
    by (rule accepts_ChrI [OF accepts_StarI [OF assms(5) e0]])
  have e2: "accepts (Star not_dquote # GClose # ?t1) (v @ dquote # ws' @ [lbrace])"
    by (rule accepts_StarI [OF ny(2) accepts_GCloseI [OF e1]])
  have e3: "accepts ?t2 (y # v @ dquote # ws' @ [lbrace])"
    using e2 ny(1) by simp
  have e4: "accepts (Star is_space # Chr dquote # ?t2) (u @ dquote # y # v @ dquote # ws' @ [lbrace])"
    by (rule accepts_StarI [OF sx(2) accepts_ChrI [OF e3]])
  have e5: "accepts (One is_space # Star is_space # Chr dquote # ?t2)
      (x # u @ dquote # y # v @ dquote # ws' @ [lbrace])"
    using e4 sx(1) by simp
  have r: "variableRegex = lit ''variable'' @ One is_space # Star is_space # Chr dquote # ?t2"
    by (simp add: variableRegex_def)
  have e6: "accepts variableRegex
      (''variable'' @ x # u @ dquote # y # v @ dquote # ws' @ [lbrace])"
    unfolding r by (rule accepts_litI [OF e5])
  have nb: "WordB \<notin> set variableRegex"
    by (simp add: variableRegex_def lit_def Chr_def)
  from rmatch_complete [OF nb e6, of p e g] show ?thesis
    by (simp add: ws nm)
qed

lemma header_at_matches:
  "header_at content k nm b \<Longrightarrow> rmatch variableRegex p (drop k content) g \<noteq> None"
  unfolding header_at_def using variable_match_complete by (metis (no_types))

lemma rx_exec_variable_Some:
  assumes "rx_exec variableRegex content i = Some m"
  shows "i \<le> match_index content m"
    and "header_at content (match_index content m) (group1 m) (blockStart content m)"
    and "int (match_index content m + length (match_text m)) = blockStart content m + 1"
    and "i \<le> k \<Longrightarrow> k < match_index content m \<Longrightarrow> \<not> header_at content k nm b"
proof -
  let ?p0 = "if i = 0 then None else Some (content ! (i - 1))"
  from assms have i: "i \<le> length content"
    and se: "rsearch variableRegex ?p0 (drop i content) = Some m"
    by (auto simp: rx_exec_def split: if_splits)
  from rsearch_Some [OF se] obtain pre where pre: "drop i content = pre @ mstart m"
    and ma: "rmatch variableRegex (lastp ?p0 pre) (mstart m) ([], [])
      = Some (mend m, gopen m, gclose m)"
    and lm: "\<forall>j<length pre.
      rmatch variableRegex (lastp ?p0 (take j pre)) (drop j (drop i content)) ([], []) = None"
    by blast
  from pre have len: "length content - i = length pre + length (mstart m)"
    by (metis length_append length_drop)
  with i have idx: "match_index content m = i + length pre"
    by (simp add: match_index_def)
  then show 1: "i \<le> match_index content m" by simp
  have dr: "drop (match_index content m) content = mstart m"
    using pre idx by (metis append_eq_conv_conj drop_drop add.commute)
  from variable_match_sound [OF ma] obtain ws nm' ws' where
    d: "mstart m = (''variable'' @ ws @ dquote # nm' @ dquote # ws' @ [lbrace]) @ mend m"
      "ws \<noteq> []" "list_all is_space ws" "nm' \<noteq> []" "dquote \<notin> set nm'" "list_all is_space ws'"
      "gopen m = nm' @ dquote # ws' @ lbrace # mend m"
      "gclose m = dquote # ws' @ lbrace # mend m"
    by auto
  have g: "group1 m = nm'" using d(7,8) by (simp add: group1_def)
  have mt: "match_text m = ''variable'' @ ws @ dquote # nm' @ dquote # ws' @ [lbrace]"
    by (rule match_text_eq [OF d(1)])
  have bs: "blockStart content m
      = int (match_index content m) + int (length (''variable'' @ ws @ dquote # nm' @ dquote # ws'))"
    by (simp add: blockStart_def mt)
  have le: "match_index content m \<le> length content"
    by (simp add: match_index_def)
  show "header_at content (match_index content m) (group1 m) (blockStart content m)"
    unfolding header_at_def g
    using le dr d(1-6) bs by (intro exI [of _ ws] exI [of _ ws'] exI [of _ "mend m"]) simp
  show "int (match_index content m + length (match_text m)) = blockStart content m + 1"
    by (simp add: blockStart_def mt)
  show "\<not> header_at content k nm b" if k: "i \<le> k" "k < match_index content m"
  proof
    assume h: "header_at content k nm b"
    from k idx have j: "k - i < length pre" by simp
    have "drop (k - i) (drop i content) = drop k content" using k(1) by simp
    with lm j have "rmatch variableRegex (lastp ?p0 (take (k - i) pre)) (drop k content) ([], [])
        = None"
      by metis
    with header_at_matches [OF h] show False by blast
  qed
qed

lemma rx_exec_variable_None:
  assumes "rx_exec variableRegex content i = None" "i \<le> k"
  shows "\<not> header_at content k nm b"
proof
  assume h: "header_at content k nm b"
  then have k: "k \<le> length content" by (auto simp: header_at_def)
  let ?p0 = "if i = 0 then None else Some (content ! (i - 1))"
  from assms k have "rsearch variableRegex ?p0 (drop i content) = None"
    by (auto simp: rx_exec_def split: if_splits)
  from rsearch_None [OF this, of "k - i"] assms(2) k
  have "rmatch variableRegex (lastp ?p0 (take (k - i) (drop i content))) (drop k content) ([], [])
      = None"
    by simp
  with header_at_matches [OF h] show False by blast
qed

lemma variableMatches_unfold:
  "variableMatches content i =
     (case rx_exec variableRegex content i of
        None \<Rightarrow> []
      | Some m \<Rightarrow> m # variableMatches content (match_index content m + length (match_text m)))"
  by (rule variableMatches.simps)

lemma variableMatches_sound:
  "m \<in> set (variableMatches content i)
   \<Longrightarrow> i \<le> match_index content m
       \<and> header_at content (match_index content m) (group1 m) (blockStart content m)"
proof (induction content i rule: variableMatches.induct)
  case (1 content lastIndex)
  show ?case
  proof (cases "rx_exec variableRegex content lastIndex")
    case None
    with "1.prems" show ?thesis by (simp add: variableMatches_unfold [of content lastIndex])
  next
    case (Some m0)
    note e = rx_exec_variable_Some [OF Some]
    from "1.prems" Some consider "m = m0"
      | "m \<in> set (variableMatches content (match_index content m0 + length (match_text m0)))"
      by (auto simp: variableMatches_unfold [of content lastIndex])
    then show ?thesis
    proof cases
      case 1
      with e(1,2) show ?thesis by simp
    next
      case 2
      from "1.IH" [OF Some 2] e(1) show ?thesis by simp
    qed
  qed
qed

lemma variableMatches_sorted:
  "sorted_wrt (\<lambda>a b. blockStart content a < int (match_index content b))
     (variableMatches content i)"
proof (induction content i rule: variableMatches.induct)
  case (1 content lastIndex)
  show ?case
  proof (cases "rx_exec variableRegex content lastIndex")
    case None
    then show ?thesis by (simp add: variableMatches_unfold [of content lastIndex])
  next
    case (Some m0)
    note e = rx_exec_variable_Some [OF Some]
    have "blockStart content m0 < int (match_index content m)"
      if "m \<in> set (variableMatches content (match_index content m0 + length (match_text m0)))"
      for m
      using variableMatches_sound [OF that] e(3) by simp
    with "1.IH" [OF Some] Some show ?thesis
      by (simp add: variableMatches_unfold [of content lastIndex])
  qed
qed

lemma variableMatches_complete:
  "header_at content k nm b \<Longrightarrow> i \<le> k
   \<Longrightarrow> \<exists>m\<in>set (variableMatches content i).
         match_index content m \<le> k \<and> int k \<le> blockStart content m"
proof (induction content i rule: variableMatches.induct)
  case (1 content lastIndex)
  show ?case
  proof (cases "rx_exec variableRegex content lastIndex")
    case None
    from rx_exec_variable_None [OF None "1.prems"(2)] "1.prems"(1) show ?thesis by blast
  next
    case (Some m0)
    note e = rx_exec_variable_Some [OF Some]
    have u: "variableMatches content lastIndex
        = m0 # variableMatches content (match_index content m0 + length (match_text m0))"
      using Some by (simp add: variableMatches_unfold [of content lastIndex])
    have le: "match_index content m0 \<le> k"
      using e(4) [of k nm b] "1.prems" by (meson not_le_imp_less)
    show ?thesis
    proof (cases "int k \<le> blockStart content m0")
      case True
      with le u show ?thesis by auto
    next
      case False
      with e(3) have "match_index content m0 + length (match_text m0) \<le> k" by simp
      from "1.IH" [OF Some "1.prems"(1) this] u show ?thesis by auto
    qed
  qed
qed
lemma header_at_before_brace: "header_at content k nm b \<Longrightarrow> int k < b"
  by (auto simp: header_at_def)

lemma extractVariables_headers:
  "extractVariables content
   = map (\<lambda>(nm, b). parseFields nm (parseVariableBlock content b)) (discoverHeaders content)"
  by (simp add: extractVariables_def discoverHeaders_def comp_def)

text \<open>
  C8, as the code has it.  The pattern is not anchored to the beginning of a line: headers
  are matched anywhere in the text, from left to right, each search starting where the
  previous match ended.  Every pair that is discovered is the name and the index of the
  opening brace of a header in the text; the pairs come in text order, each header ending
  before the next begins; every header in the text is discovered or begins inside a
  discovered one; and the loop builds one declaration from each pair, in that order.
\<close>

theorem header_discovery:
  "(\<forall>(nm, b)\<in>set (discoverHeaders content). \<exists>k. header_at content k nm b)
   \<and> sorted_wrt (\<lambda>(nm, b) (nm', b'). b < b') (discoverHeaders content)
   \<and> (\<forall>k nm b. header_at content k nm b \<longrightarrow>
         (\<exists>(nm', b')\<in>set (discoverHeaders content).
            \<exists>k'. header_at content k' nm' b' \<and> k' \<le> k \<and> int k \<le> b'))
   \<and> extractVariables content
       = map (\<lambda>(nm, b). parseFields nm (parseVariableBlock content b))
           (discoverHeaders content)"
proof -
  let ?ms = "variableMatches content 0"
  have 1: "\<forall>(nm, b)\<in>set (discoverHeaders content). \<exists>k. header_at content k nm b"
    using variableMatches_sound [of _ content 0]
    by (auto simp: discoverHeaders_def)
  have "sorted_wrt (\<lambda>a b. blockStart content a < blockStart content b) ?ms"
  proof (rule sorted_wrt_mono_rel [OF _ variableMatches_sorted [of content 0]])
    fix a b
    assume "b \<in> set ?ms" and ab: "blockStart content a < int (match_index content b)"
    from variableMatches_sound [OF this(1)]
    have "int (match_index content b) < blockStart content b"
      by (auto dest: header_at_before_brace)
    with ab show "blockStart content a < blockStart content b" by simp
  qed
  then have 2: "sorted_wrt (\<lambda>(nm, b) (nm', b'). b < b') (discoverHeaders content)"
    by (simp add: discoverHeaders_def sorted_wrt_map)
  have 3: "\<forall>k nm b. header_at content k nm b \<longrightarrow>
         (\<exists>(nm', b')\<in>set (discoverHeaders content).
            \<exists>k'. header_at content k' nm' b' \<and> k' \<le> k \<and> int k \<le> b')"
  proof (intro allI impI)
    fix k nm b
    assume "header_at content k nm b"
    from variableMatches_complete [OF this, of 0] obtain m where
      m: "m \<in> set ?ms" "match_index content m \<le> k" "int k \<le> blockStart content m"
      by auto
    from variableMatches_sound [OF m(1)]
    have h: "header_at content (match_index content m) (group1 m) (blockStart content m)"
      by simp
    have "(group1 m, blockStart content m) \<in> set (discoverHeaders content)"
      using m(1) by (auto simp: discoverHeaders_def)
    with h m(2,3) show "\<exists>(nm', b')\<in>set (discoverHeaders content).
            \<exists>k'. header_at content k' nm' b' \<and> k' \<le> k \<and> int k \<le> b'"
      by blast
  qed
  from 1 2 3 extractVariables_headers [of content] show ?thesis by blast
qed

theorem header_discovery_witness:
  "discoverHeaders two_declarations = [(''bucket_name'', 23), (''storage_class'', 69)]
   \<and> (\<exists>k. header_at two_declarations k ''storage_class'' 69)
   \<and> map name (extractVariables two_declarations) = [''bucket_name'', ''storage_class'']
   \<and> map category_of (extractVariables two_declarations) = [Required, Trigger]"
proof -
  have d: "discoverHeaders two_declarations = [(''bucket_name'', 23), (''storage_class'', 69)]"
    by code_simp
  have n: "map name (extractVariables two_declarations) = [''bucket_name'', ''storage_class'']"
    by code_simp
  have c: "map category_of (extractVariables two_declarations) = [Required, Trigger]"
    by code_simp
  from header_discovery [of two_declarations]
  have "\<forall>(nm, b)\<in>set (discoverHeaders two_declarations). \<exists>k. header_at two_declarations k nm b"
    by (rule conjunct1)
  then have "\<exists>k. header_at two_declarations k ''storage_class'' 69"
    unfolding d by simp
  with d n c show ?thesis by blast
qed

text \<open>
  C8 as it is stated fails: the pattern is not line-anchored.  In the text
  \<^const>\<open>commented_header\<close> the header follows a comment sign on the same line, at index
  2, and it is discovered.
\<close>

theorem header_not_line_anchored:
  "discoverHeaders commented_header = [(''old'', 17)]
   \<and> map (match_index commented_header) (variableMatches commented_header 0) = [2]
   \<and> \<not> at_line_start commented_header 2"
  by code_simp

end
